theory Spec2Isabelle
  imports Main "HOL-Library.Char_ord" "HOL-Library.Word" "HOL-Library.AList"
begin

section \<open>The PLY reader of go-ply (reader.go)\<close>

text \<open>
  A shallow embedding of \<^verbatim>\<open>reader.go\<close>. Go strings and byte slices are lists of
  \<^typ>\<open>char\<close> (an Isabelle character is one byte). Every function that can return an
  error or panic returns a sum whose left side is the \<open>error\<close>; the state of a document
  after a failed load is not modelled. Functions of the Go standard library that the reader
  calls (strconv, strings, regexp, bufio, bytes, encoding/binary) are modelled from their
  documented behaviour; \<^verbatim>\<open>strconv.ParseFloat\<close> is a parameter of the model.
  Output printed with \<^verbatim>\<open>fmt\<close> is left out.
\<close>

subsection \<open>Errors and panics\<close>

datatype numErr = ErrSyntax | ErrRange

datatype panic =
    IndexOutOfRange int nat    \<comment> \<open>index, length\<close>
  | MakeSliceLenOutOfRange
  | NilByteOrder

datatype error =
    EOF
  | ErrUnexpectedEOF
  | ErrorString string              \<comment> \<open>\<^verbatim>\<open>errors.New\<close>\<close>
  | NumError string string numErr   \<comment> \<open>\<^verbatim>\<open>strconv.NumError{Func, Num, Err}\<close>\<close>
  | PathError string                \<comment> \<open>\<^verbatim>\<open>os.Open\<close> failed\<close>
  | Panic panic                     \<comment> \<open>a run-time panic, not a returned error\<close>

definition quote :: "string \<Rightarrow> string" where
  \<comment> \<open>\<^verbatim>\<open>strconv.Quote\<close> on printable ASCII without quotes or backslashes\<close>
  "quote s = [CHR 0x22] @ s @ [CHR 0x22]"

fun Error :: "error \<Rightarrow> string" where
  "Error EOF = ''EOF''"
| "Error ErrUnexpectedEOF = ''unexpected EOF''"
| "Error (ErrorString s) = s"
| "Error (NumError f n ErrSyntax) = ''strconv.'' @ f @ '': parsing '' @ quote n @ '': invalid syntax''"
| "Error (NumError f n ErrRange) = ''strconv.'' @ f @ '': parsing '' @ quote n @ '': value out of range''"
| "Error (PathError n) = ''open '' @ n @ '': no such file or directory''"
| "Error (Panic _) = ''panic''"

fun index :: "'a list \<Rightarrow> int \<Rightarrow> error + 'a" where
  \<comment> \<open>a bounds-checked read \<^verbatim>\<open>xs[i]\<close>\<close>
  "index xs i =
     (if 0 \<le> i \<and> i < int (length xs) then Inr (xs ! nat i)
      else Inl (Panic (IndexOutOfRange i (length xs))))"

subsection \<open>strconv: integers\<close>

definition isDigit :: "char \<Rightarrow> bool" where
  "isDigit c = (CHR ''0'' \<le> c \<and> c \<le> CHR ''9'')"

definition lower :: "char \<Rightarrow> char" where
  \<comment> \<open>\<^verbatim>\<open>c | ('x' - 'X')\<close>: bit 5 set\<close>
  "lower c = Char (digit0 c) (digit1 c) (digit2 c) (digit3 c) (digit4 c) True (digit6 c) (digit7 c)"

definition isLetter :: "char \<Rightarrow> bool" where
  "isLetter c = (CHR ''a'' \<le> lower c \<and> lower c \<le> CHR ''z'')"

definition digitVal :: "char \<Rightarrow> nat" where
  "digitVal c = (if isDigit c then of_char c - 48 else of_char (lower c) - 97 + 10)"

definition maxUint64 :: nat where
  "maxUint64 = 2 ^ 64 - 1"

fun parseDigits :: "bool \<Rightarrow> nat \<Rightarrow> nat \<Rightarrow> nat \<Rightarrow> bool \<Rightarrow> string \<Rightarrow> numErr + (nat \<times> bool)" where
  \<comment> \<open>the digit loop of \<^verbatim>\<open>ParseUint\<close>: base0, base, maxVal, n, underscores\<close>
  "parseDigits base0 base maxVal n us [] = Inr (n, us)"
| "parseDigits base0 base maxVal n us (c # cs) =
     (if c = CHR ''_'' \<and> base0 then parseDigits base0 base maxVal n True cs
      else if isDigit c \<or> isLetter c then
        (if digitVal c \<ge> base then Inl ErrSyntax
         else if n \<ge> maxUint64 div base + 1 then Inl ErrRange
         else let n1 = (n * base + digitVal c) mod 2 ^ 64
              in if n1 < n * base \<or> n1 > maxVal then Inl ErrRange
                 else parseDigits base0 base maxVal n1 us cs)
      else Inl ErrSyntax)"

fun underscoreScan :: "bool \<Rightarrow> char \<Rightarrow> string \<Rightarrow> bool" where
  \<comment> \<open>the loop of \<^verbatim>\<open>underscoreOK\<close>; \<open>saw\<close> is \<open>0\<close> after a digit, \<open>_\<close> after an
     underscore, \<open>!\<close> after anything else, \<open>^\<close> at the start\<close>
  "underscoreScan hex saw [] = (saw \<noteq> CHR ''_'')"
| "underscoreScan hex saw (c # cs) =
     (if isDigit c \<or> (hex \<and> CHR ''a'' \<le> lower c \<and> lower c \<le> CHR ''f'')
      then underscoreScan hex (CHR ''0'') cs
      else if c = CHR ''_'' then (if saw \<noteq> CHR ''0'' then False else underscoreScan hex (CHR ''_'') cs)
      else if saw = CHR ''_'' then False
      else underscoreScan hex (CHR ''!'') cs)"

definition hasBasePrefix :: "string \<Rightarrow> bool" where
  "hasBasePrefix s =
     (length s \<ge> 2 \<and> s ! 0 = CHR ''0'' \<and>
      (lower (s ! 1) = CHR ''b'' \<or> lower (s ! 1) = CHR ''o'' \<or> lower (s ! 1) = CHR ''x''))"

definition underscoreOK :: "string \<Rightarrow> bool" where
  "underscoreOK s0 =
     (let s = (if length s0 \<ge> 1 \<and> (s0 ! 0 = CHR ''-'' \<or> s0 ! 0 = CHR ''+'') then tl s0 else s0)
      in if hasBasePrefix s
         then underscoreScan (lower (s ! 1) = CHR ''x'') (CHR ''0'') (drop 2 s)
         else underscoreScan False (CHR ''^'') s)"

definition ParseUint :: "string \<Rightarrow> nat \<Rightarrow> nat \<Rightarrow> nat \<times> numErr option" where
  \<comment> \<open>\<^verbatim>\<open>strconv.ParseUint(s, base, bitSize)\<close> for base 0 or 2..36 and bitSize 1..64\<close>
  "ParseUint s0 base bitSize =
     (if s0 = [] then (0, Some ErrSyntax)
      else
        let base0 = (base = 0);
            pre = (if \<not> base0 then (base, s0)
                   else if s0 ! 0 = CHR ''0'' then
                     (if length s0 \<ge> 3 \<and> lower (s0 ! 1) = CHR ''b'' then (2, drop 2 s0)
                      else if length s0 \<ge> 3 \<and> lower (s0 ! 1) = CHR ''o'' then (8, drop 2 s0)
                      else if length s0 \<ge> 3 \<and> lower (s0 ! 1) = CHR ''x'' then (16, drop 2 s0)
                      else (8, drop 1 s0))
                   else (10, s0));
            maxVal = 2 ^ bitSize - 1
        in case parseDigits base0 (fst pre) maxVal 0 False (snd pre) of
             Inl ErrSyntax \<Rightarrow> (0, Some ErrSyntax)
           | Inl ErrRange \<Rightarrow> (maxVal, Some ErrRange)
           | Inr (n, us) \<Rightarrow> if us \<and> \<not> underscoreOK s0 then (0, Some ErrSyntax) else (n, None))"

definition ParseInt :: "string \<Rightarrow> nat \<Rightarrow> nat \<Rightarrow> error + int" where
  \<comment> \<open>\<^verbatim>\<open>strconv.ParseInt(s, base, bitSize)\<close>\<close>
  "ParseInt s0 base bitSize =
     (if s0 = [] then Inl (NumError ''ParseInt'' s0 ErrSyntax)
      else
        let neg = (s0 ! 0 = CHR ''-'');
            s = (if s0 ! 0 = CHR ''+'' \<or> s0 ! 0 = CHR ''-'' then tl s0 else s0);
            cutoff = 2 ^ (bitSize - 1)
        in case ParseUint s base bitSize of
             (un, Some ErrSyntax) \<Rightarrow> Inl (NumError ''ParseInt'' s0 ErrSyntax)
           | (un, _) \<Rightarrow>
               if \<not> neg \<and> un \<ge> cutoff then Inl (NumError ''ParseInt'' s0 ErrRange)
               else if neg \<and> un > cutoff then Inl (NumError ''ParseInt'' s0 ErrRange)
               else Inr (if neg then - int un else int un))"

definition ParseUintE :: "string \<Rightarrow> nat \<Rightarrow> nat \<Rightarrow> error + nat" where
  \<comment> \<open>\<^verbatim>\<open>ParseUint\<close> with its error as the caller tests it\<close>
  "ParseUintE s base bitSize =
     (case ParseUint s base bitSize of
        (n, None) \<Rightarrow> Inr n
      | (n, Some k) \<Rightarrow> Inl (NumError ''ParseUint'' s k))"

definition digitChar :: "nat \<Rightarrow> char" where
  "digitChar d = ''0123456789'' ! d"

function natToString :: "nat \<Rightarrow> string" where
  "natToString n = (if n < 10 then [digitChar n] else natToString (n div 10) @ [digitChar (n mod 10)])"
  by pat_completeness auto
termination
  by (relation "measure id") auto

declare natToString.simps [simp del]

definition itoa :: "int \<Rightarrow> string" where
  \<comment> \<open>\<^verbatim>\<open>strconv.Itoa\<close>\<close>
  "itoa n = (if n < 0 then CHR ''-'' # natToString (nat (- n)) else natToString (nat n))"

subsection \<open>strings.TrimSpace\<close>

definition isAsciiSpace :: "char \<Rightarrow> bool" where
  "isAsciiSpace c =
     (c = CHR 0x09 \<or> c = CHR 0x0A \<or> c = CHR 0x0B \<or> c = CHR 0x0C \<or> c = CHR 0x0D \<or> c = CHR 0x20)"

fun isSpaceSeq :: "string \<Rightarrow> bool" where
  \<comment> \<open>the UTF-8 encodings of the runes for which \<^verbatim>\<open>unicode.IsSpace\<close> holds\<close>
  "isSpaceSeq [c] = isAsciiSpace c"
| "isSpaceSeq [c, d] = (c = CHR 0xC2 \<and> (d = CHR 0x85 \<or> d = CHR 0xA0))"
| "isSpaceSeq [c, d, e] =
     ((c = CHR 0xE1 \<and> d = CHR 0x9A \<and> e = CHR 0x80) \<or>
      (c = CHR 0xE2 \<and> d = CHR 0x80 \<and>
         ((CHR 0x80 \<le> e \<and> e \<le> CHR 0x8A) \<or> e = CHR 0xA8 \<or> e = CHR 0xA9 \<or> e = CHR 0xAF)) \<or>
      (c = CHR 0xE2 \<and> d = CHR 0x81 \<and> e = CHR 0x9F) \<or>
      (c = CHR 0xE3 \<and> d = CHR 0x80 \<and> e = CHR 0x80))"
| "isSpaceSeq _ = False"

definition spaceWidth :: "string \<Rightarrow> nat" where
  \<comment> \<open>the width of the white-space rune at the start of \<open>s\<close>, 0 when there is none\<close>
  "spaceWidth s =
     (if 1 \<le> length s \<and> isSpaceSeq (take 1 s) then 1
      else if 2 \<le> length s \<and> isSpaceSeq (take 2 s) then 2
      else if 3 \<le> length s \<and> isSpaceSeq (take 3 s) then 3 else 0)"

definition spaceWidthLast :: "string \<Rightarrow> nat" where
  \<comment> \<open>the width of the white-space rune at the end of \<open>s\<close>, 0 when there is none\<close>
  "spaceWidthLast s =
     (if 1 \<le> length s \<and> isSpaceSeq (drop (length s - 1) s) then 1
      else if 2 \<le> length s \<and> isSpaceSeq (drop (length s - 2) s) then 2
      else if 3 \<le> length s \<and> isSpaceSeq (drop (length s - 3) s) then 3 else 0)"

function TrimLeft :: "string \<Rightarrow> string" where
  "TrimLeft s = (if spaceWidth s = 0 then s else TrimLeft (drop (spaceWidth s) s))"
  by pat_completeness auto
termination
  by (relation "measure length") (auto simp: spaceWidth_def split: if_splits)

function TrimRight :: "string \<Rightarrow> string" where
  "TrimRight s = (if spaceWidthLast s = 0 then s else TrimRight (take (length s - spaceWidthLast s) s))"
  by pat_completeness auto
termination
  by (relation "measure length") (auto simp: spaceWidthLast_def split: if_splits)

declare TrimLeft.simps [simp del] TrimRight.simps [simp del]

definition TrimSpace :: "string \<Rightarrow> string" where
  "TrimSpace s = TrimRight (TrimLeft s)"

definition strip :: "string \<Rightarrow> string" where
  "strip s = TrimSpace s"

subsection \<open>regexp: leftmost-first matching\<close>

text \<open>
  Go's \<^verbatim>\<open>regexp\<close> prefers, at the leftmost position where a match exists, the match
  a backtracking search finds first. \<open>backtrack r s\<close> lists, in that order of preference,
  what is left of \<open>s\<close> after each way \<open>r\<close> matches a prefix of it; an iteration of a star
  that consumes nothing is not repeated.
\<close>

datatype re = Atom "char \<Rightarrow> bool" | Seq re re | Alt re re | Star re

definition Plus :: "re \<Rightarrow> re" where
  "Plus r = Seq r (Star r)"

fun backtrack :: "re \<Rightarrow> string \<Rightarrow> string list" where
  "backtrack (Atom P) s = (case s of [] \<Rightarrow> [] | c # cs \<Rightarrow> if P c then [cs] else [])"
| "backtrack (Seq a b) s = concat (map (backtrack b) (backtrack a s))"
| "backtrack (Alt a b) s = backtrack a s @ backtrack b s"
| "backtrack (Star a) s =
     concat (map (\<lambda>x. if length x < length s then backtrack (Star a) x else []) (backtrack a s)) @ [s]"

function FindAll :: "re \<Rightarrow> string \<Rightarrow> string list" where
  \<comment> \<open>the whole matches of \<^verbatim>\<open>FindAllStringSubmatch(s, -1)\<close>, for an expression that
     matches no empty string\<close>
  "FindAll r s =
     (if s = [] then []
      else case backtrack r s of
             [] \<Rightarrow> FindAll r (tl s)
           | x # _ \<Rightarrow> if length x < length s then take (length s - length x) s # FindAll r x
                       else FindAll r (tl s))"
  by pat_completeness auto
termination
  by (relation "measure (\<lambda>(r, s). length s)") auto

declare FindAll.simps [simp del]

definition isWord :: "char \<Rightarrow> bool" where
  \<comment> \<open>\<^verbatim>\<open>\w\<close>\<close>
  "isWord c = (isDigit c \<or> (CHR ''A'' \<le> c \<and> c \<le> CHR ''Z'') \<or> c = CHR ''_'' \<or>
               (CHR ''a'' \<le> c \<and> c \<le> CHR ''z''))"

definition isDot :: "char \<Rightarrow> bool" where
  "isDot c = (c = CHR ''.'')"

definition isSign :: "char \<Rightarrow> bool" where
  "isSign c = (c = CHR ''+'' \<or> c = CHR ''-'')"

definition wordMatcher :: re where
  \<comment> \<open>\<^verbatim>\<open>((\d+)*\.*\d+)|\w+\<close>\<close>
  "wordMatcher =
     Alt (Seq (Star (Plus (Atom isDigit))) (Seq (Star (Atom isDot)) (Plus (Atom isDigit))))
         (Plus (Atom isWord))"

definition numMatcher :: re where
  \<comment> \<open>\<^verbatim>\<open>[\+\-]*([0-9]*)+\.*[0-9]+\<close>\<close>
  "numMatcher =
     Seq (Star (Atom isSign))
         (Seq (Plus (Star (Atom isDigit))) (Seq (Star (Atom isDot)) (Plus (Atom isDigit))))"

subsection \<open>bufio.Reader over a file\<close>

text \<open>
  The reader holds the bytes it has buffered and the rest of the file; it fetches at most
  \<open>bufSize\<close> bytes at a time. The file itself never fails: a read at its end is \<open>EOF\<close>.
\<close>

record Reader =
  buffered :: string
  source :: string

definition bufSize :: nat where
  "bufSize = 4096"

definition NewReader :: "string \<Rightarrow> Reader" where
  "NewReader content = \<lparr>buffered = [], source = content\<rparr>"

definition newline :: char where
  "newline = CHR 0x0A"

function collectFragments :: "Reader \<Rightarrow> string \<Rightarrow> (string \<times> error option) \<times> Reader" where
  \<comment> \<open>\<^verbatim>\<open>ReadString('\n')\<close>: \<open>acc\<close> holds the full buffers collected so far\<close>
  "collectFragments r acc =
     (if newline \<in> set (buffered r) then
        ((acc @ takeWhile (\<lambda>c. c \<noteq> newline) (buffered r) @ [newline], None),
         r\<lparr>buffered := tl (dropWhile (\<lambda>c. c \<noteq> newline) (buffered r))\<rparr>)
      else if source r = [] then ((acc @ buffered r, Some EOF), r\<lparr>buffered := []\<rparr>)
      else if length (buffered r) \<ge> bufSize then
        collectFragments (r\<lparr>buffered := []\<rparr>) (acc @ buffered r)
      else
        collectFragments
          (r\<lparr>buffered := buffered r @ take (bufSize - length (buffered r)) (source r),
             source := drop (bufSize - length (buffered r)) (source r)\<rparr>) acc)"
  by pat_completeness auto
termination
proof (relation "measures [\<lambda>(r, acc). length (source r), \<lambda>(r, acc). length (buffered r)]",
       goal_cases)
  case (3 r acc)
  then have "0 < length (source r)" "length (buffered r) < bufSize"
    by simp_all
  then have "length (source r) - (bufSize - length (buffered r)) < length (source r)"
    by arith
  then show ?case
    by simp
qed (auto simp: bufSize_def)

declare collectFragments.simps [simp del]

definition ReadString :: "Reader \<Rightarrow> (string \<times> error option) \<times> Reader" where
  "ReadString r = collectFragments r []"

definition readLine :: "Reader \<Rightarrow> error + (string \<times> Reader)" where
  "readLine r =
     (case ReadString r of
        ((line, Some e), r') \<Rightarrow> Inl e
      | ((line, None), r') \<Rightarrow> Inr (strip line, r'))"

definition Read :: "Reader \<Rightarrow> nat \<Rightarrow> (string \<times> error option) \<times> Reader" where
  \<comment> \<open>\<^verbatim>\<open>Read(p)\<close> with \<open>n = len(p)\<close>: the bytes copied into \<open>p\<close>\<close>
  "Read r n =
     (if n = 0 then (([], None), r)
      else if buffered r = [] then
        (if source r = [] then (([], Some EOF), r)
         else if n \<ge> bufSize then ((take n (source r), None), r\<lparr>source := drop n (source r)\<rparr>)
         else ((take n (take bufSize (source r)), None),
               r\<lparr>buffered := drop n (take bufSize (source r)), source := drop bufSize (source r)\<rparr>))
      else ((take n (buffered r), None), r\<lparr>buffered := drop n (buffered r)\<rparr>))"

function ReadAtLeast :: "Reader \<Rightarrow> nat \<Rightarrow> string \<Rightarrow> error + (string \<times> Reader)" where
  \<comment> \<open>\<^verbatim>\<open>io.ReadFull\<close>: \<open>n\<close> bytes still to read, \<open>acc\<close> read so far\<close>
  "ReadAtLeast r n acc =
     (if n = 0 then Inr (acc, r)
      else case Read r n of
             ((bs, Some e), r') \<Rightarrow> Inl (if acc @ bs = [] then EOF else ErrUnexpectedEOF)
           | ((bs, None), r') \<Rightarrow>
               if bs = [] then Inl ErrUnexpectedEOF else ReadAtLeast r' (n - length bs) (acc @ bs))"
  by pat_completeness auto
termination
  by (relation "measure (\<lambda>(r, n, acc). n)") auto

declare ReadAtLeast.simps [simp del]

definition ReadFull :: "Reader \<Rightarrow> nat \<Rightarrow> error + (string \<times> Reader)" where
  "ReadFull r n = ReadAtLeast r n []"

subsection \<open>encoding/binary and bytes.Buffer\<close>

datatype ByteOrder = BigEndian | LittleEndian

definition byte :: "nat \<Rightarrow> char" where
  \<comment> \<open>the conversion \<^verbatim>\<open>byte(n)\<close>: the low eight bits\<close>
  "byte n = Char (odd n) (odd (n div 2)) (odd (n div 4)) (odd (n div 8))
                 (odd (n div 16)) (odd (n div 32)) (odd (n div 64)) (odd (n div 128))"

definition littleEndianBytes :: "nat \<Rightarrow> nat \<Rightarrow> string" where
  \<comment> \<open>what \<^verbatim>\<open>binary.Write(w, binary.LittleEndian, &t)\<close> hands to \<^verbatim>\<open>w.Write\<close>
     for a \<open>k\<close>-byte value with bit pattern \<open>n\<close>\<close>
  "littleEndianBytes k n = map (\<lambda>i. byte (n div 256 ^ i)) [0..<k]"

definition leNat :: "string \<Rightarrow> nat" where
  "leNat bs = foldr (\<lambda>c n. of_char c + 256 * n) bs 0"

definition Uint32 :: "ByteOrder \<Rightarrow> string \<Rightarrow> 32 word" where
  \<comment> \<open>\<^verbatim>\<open>order.Uint32(bs)\<close> on the first four bytes\<close>
  "Uint32 order bs =
     (case order of
        LittleEndian \<Rightarrow> word_of_nat (leNat (take 4 bs))
      | BigEndian \<Rightarrow> word_of_nat (leNat (rev (take 4 bs))))"

text \<open>
  A byte slice is an array in a heap with a length and a capacity (every slice of this
  program starts at offset 0). \<^verbatim>\<open>bytes.NewBuffer(b)\<close> makes a buffer whose contents are
  \<open>b\<close>; \<^verbatim>\<open>Write\<close> appends after them, in place when the capacity allows and in a new
  array otherwise.
\<close>

record slice =
  s_arr :: nat
  s_len :: nat
  s_cap :: nat

type_synonym heap = "string list"

definition makeBytes :: "nat \<Rightarrow> heap \<Rightarrow> slice \<times> heap" where
  \<comment> \<open>\<^verbatim>\<open>make([]byte, n)\<close>\<close>
  "makeBytes n h = (\<lparr>s_arr = length h, s_len = n, s_cap = n\<rparr>, h @ [replicate n (CHR 0x00)])"

definition contents :: "heap \<Rightarrow> slice \<Rightarrow> string" where
  "contents h s = take (s_len s) (h ! s_arr s)"

definition NewBuffer :: "slice \<Rightarrow> slice" where
  "NewBuffer b = b"

definition Buffer_Write :: "slice \<Rightarrow> string \<Rightarrow> heap \<Rightarrow> slice \<times> heap" where
  "Buffer_Write buf p h =
     (if length p \<le> s_cap buf - s_len buf then
        (buf\<lparr>s_len := s_len buf + length p\<rparr>,
         h[s_arr buf := take (s_len buf) (h ! s_arr buf) @ p @
                        drop (s_len buf + length p) (h ! s_arr buf)])
      else
        let c = max (s_len buf + length p) (2 * s_cap buf)
        in (\<lparr>s_arr = length h, s_len = s_len buf + length p, s_cap = c\<rparr>,
            h @ [contents h buf @ p @ replicate (c - (s_len buf + length p)) (CHR 0x00)]))"

definition writeValue :: "nat \<Rightarrow> string \<Rightarrow> string" where
  \<comment> \<open>\<^verbatim>\<open>b := make([]byte, k); buf := bytes.NewBuffer(b); binary.Write(buf, ..., &t); return b\<close>
     where \<open>bs\<close> are the bytes of \<open>t\<close>: the contents of \<open>b\<close> at the return\<close>
  "writeValue k bs =
     (let (b, h1) = makeBytes k [];
          buf = NewBuffer b;
          (buf', h2) = Buffer_Write buf bs h1
      in contents h2 b)"

subsection \<open>The type tables\<close>

definition Types :: "string list" where
  "Types = [''invalid'', ''int8'', ''int16'', ''int32'', ''uint8'', ''uint16'', ''uint32'',
            ''float32'', ''float64'']"

definition OldTypes :: "string list" where
  "OldTypes = [''invalid'', ''char'', ''short'', ''int'', ''uchar'', ''ushort'', ''uint'',
               ''float'', ''double'']"

definition SizeOfTypeTable :: "(string \<times> int) list" where
  "SizeOfTypeTable =
     [(''invalid'', 0), (''int8'', 1), (''int16'', 2), (''int32'', 4), (''uint8'', 1),
      (''uint16'', 2), (''uint32'', 4), (''float32'', 4), (''float64'', 8), (''char'', 1),
      (''short'', 2), (''int'', 4), (''uchar'', 1), (''ushort'', 2), (''uint'', 4),
      (''float'', 4), (''double'', 8)]"

definition SizeOfType :: "string \<Rightarrow> int" where
  \<comment> \<open>a Go map read: 0 for a missing key\<close>
  "SizeOfType t = (case map_of SizeOfTypeTable t of None \<Rightarrow> 0 | Some n \<Rightarrow> n)"

subsection \<open>The text codec\<close>

type_synonym parseFloat = "string \<Rightarrow> nat \<Rightarrow> error + nat"
  \<comment> \<open>\<^verbatim>\<open>strconv.ParseFloat(s, bitSize)\<close>; a result is given by the bit pattern of the
     \<open>bitSize\<close>-bit float it converts to\<close>

definition toType :: "parseFloat \<Rightarrow> string \<Rightarrow> string \<Rightarrow> error + string option" where
  "toType pf data typeName =
     (if typeName = Types ! 1 \<or> typeName = OldTypes ! 1 then
        (case ParseInt data 0 8 of Inl e \<Rightarrow> Inl e
         | Inr n \<Rightarrow> Inr (Some (writeValue 1 (littleEndianBytes 1 (nat (n mod 2 ^ 8))))))
      else if typeName = Types ! 2 \<or> typeName = OldTypes ! 2 then
        (case ParseInt data 0 16 of Inl e \<Rightarrow> Inl e
         | Inr n \<Rightarrow> Inr (Some (writeValue 2 (littleEndianBytes 2 (nat (n mod 2 ^ 16))))))
      else if typeName = Types ! 3 \<or> typeName = OldTypes ! 3 then
        (case ParseInt data 0 32 of Inl e \<Rightarrow> Inl e
         | Inr n \<Rightarrow> Inr (Some (writeValue 4 (littleEndianBytes 4 (nat (n mod 2 ^ 32))))))
      else if typeName = Types ! 4 \<or> typeName = OldTypes ! 4 then
        (case ParseUintE data 0 8 of Inl e \<Rightarrow> Inl e
         | Inr u \<Rightarrow> Inr (Some (writeValue 1 (littleEndianBytes 1 u))))
      else if typeName = Types ! 5 \<or> typeName = OldTypes ! 5 then
        (case ParseUintE data 0 16 of Inl e \<Rightarrow> Inl e
         | Inr u \<Rightarrow> Inr (Some (writeValue 2 (littleEndianBytes 2 u))))
      else if typeName = Types ! 6 \<or> typeName = OldTypes ! 6 then
        (case ParseUintE data 0 32 of Inl e \<Rightarrow> Inl e
         | Inr u \<Rightarrow> Inr (Some (writeValue 4 (littleEndianBytes 4 u))))
      else if typeName = Types ! 7 \<or> typeName = OldTypes ! 7 then
        (case pf data 32 of Inl e \<Rightarrow> Inl e
         | Inr f \<Rightarrow> Inr (Some (writeValue 4 (littleEndianBytes 4 f))))
      else if typeName = Types ! 8 \<or> typeName = OldTypes ! 8 then
        (case pf data 64 of Inl e \<Rightarrow> Inl e
         | Inr f \<Rightarrow> Inr (Some (writeValue 8 (littleEndianBytes 8 f))))
      else Inr None)"

subsection \<open>The document\<close>

record Property =
  Name :: string
  IsList :: bool
  Data :: "string option list"    \<comment> \<open>one buffer per row; \<open>None\<close> is the nil slice\<close>
  Type :: string
  ListSizeType :: string
  pos :: int

record Element =
  ElemName :: string
  Properties :: "Property list"
  Size :: int

definition BinaryBigEndian :: int where "BinaryBigEndian = 0"
definition BinaryLittleEndian :: int where "BinaryLittleEndian = 1"
definition Ascii :: int where "Ascii = 2"

record PLY =
  Elements :: "Element list"
  FileType :: int
  ObjInfoItems :: "(string \<times> string) list option"   \<comment> \<open>\<open>None\<close> is the nil map\<close>
  currentLine :: int
  filename :: string
  reader :: Reader
  byteOrder :: "ByteOrder option"

definition newPLY :: PLY where
  \<comment> \<open>the zero value of the struct\<close>
  "newPLY = \<lparr>Elements = [], FileType = 0, ObjInfoItems = None, currentLine = 0,
             filename = [], reader = NewReader [], byteOrder = None\<rparr>"

definition newProperty :: Property where
  "newProperty = \<lparr>Name = [], IsList = False, Data = [], Type = [], ListSizeType = [], pos = 0\<rparr>"

subsection \<open>parseHeader\<close>

definition formatError :: "PLY \<Rightarrow> error" where
  "formatError p =
     ErrorString (''Incorrect format in '' @ filename p @ '' at line '' @ itoa (currentLine p))"

definition remaining :: "Reader \<Rightarrow> nat" where
  "remaining r = length (buffered r) + length (source r)"

definition propertyLine :: "string list \<Rightarrow> int \<Rightarrow> error + Property" where
  \<comment> \<open>the property a \<^verbatim>\<open>property\<close> line declares, before it is appended\<close>
  "propertyLine words propPos =
     (case index words 1 of Inl e \<Rightarrow> Inl e
      | Inr w1 \<Rightarrow>
          if w1 = ''list'' then
            (case index words 2 of Inl e \<Rightarrow> Inl e
             | Inr w2 \<Rightarrow>
                 (case index words 3 of Inl e \<Rightarrow> Inl e
                  | Inr w3 \<Rightarrow>
                      (case index words 4 of Inl e \<Rightarrow> Inl e
                       | Inr w4 \<Rightarrow>
                           Inr (newProperty\<lparr>pos := propPos, IsList := True, ListSizeType := w2,
                                             Type := w3, Name := w4\<rparr>))))
          else
            (case index words 2 of Inl e \<Rightarrow> Inl e
             | Inr w2 \<Rightarrow> Inr (newProperty\<lparr>pos := propPos, IsList := False, Type := w1, Name := w2\<rparr>)))"

function headerLoop :: "PLY \<Rightarrow> int \<Rightarrow> int \<Rightarrow> error + PLY" where
  \<comment> \<open>the \<^verbatim>\<open>for\<close> loop of \<^verbatim>\<open>parseHeader\<close>, with \<open>currentElem\<close> and \<open>propPos\<close>\<close>
  "headerLoop p currentElem propPos =
     (case readLine (reader p) of Inl e \<Rightarrow> Inl e
      | Inr (line, r) \<Rightarrow>
          let p = p\<lparr>reader := r, currentLine := currentLine p + 1\<rparr>;
              words = FindAll wordMatcher line
          in case index words 0 of Inl e \<Rightarrow> Inl e
             | Inr w0 \<Rightarrow>
                 if w0 = ''comment'' then headerLoop p currentElem propPos
                 else if w0 = ''element'' then
                   (case index words 1 of Inl e \<Rightarrow> Inl e
                    | Inr elemName \<Rightarrow>
                        (case index words 2 of Inl e \<Rightarrow> Inl e
                         | Inr w2 \<Rightarrow>
                             (case ParseInt w2 0 32 of
                                Inl e \<Rightarrow> Inl (ErrorString (Error e @ filename p @ '' at line '' @
                                                            itoa (currentLine p)))
                              | Inr num \<Rightarrow>
                                  headerLoop
                                    (p\<lparr>Elements := Elements p @
                                         [\<lparr>ElemName = elemName, Properties = [], Size = num\<rparr>]\<rparr>)
                                    (currentElem + 1) 0)))
                 else if w0 = ''property'' then
                   (case propertyLine words propPos of Inl e \<Rightarrow> Inl e
                    | Inr prop \<Rightarrow>
                        (case index (Elements p) currentElem of Inl e \<Rightarrow> Inl e
                         | Inr elem \<Rightarrow>
                             headerLoop
                               (p\<lparr>Elements := (Elements p)
                                    [nat currentElem := elem\<lparr>Properties := Properties elem @ [prop]\<rparr>]\<rparr>)
                               currentElem (propPos + 1)))
                 else if w0 = ''obj_info'' then
                   (case index words 1 of Inl e \<Rightarrow> Inl e
                    | Inr k \<Rightarrow>
                        (case index words 2 of Inl e \<Rightarrow> Inl e
                         | Inr v \<Rightarrow>
                             headerLoop
                               (p\<lparr>ObjInfoItems :=
                                    Some (AList.update k v
                                            (case ObjInfoItems p of None \<Rightarrow> [] | Some m \<Rightarrow> m))\<rparr>)
                               currentElem propPos))
                 else if w0 = ''end_header'' then Inr p
                 else headerLoop p currentElem propPos)"
  by pat_completeness auto
termination
proof (relation "measure (\<lambda>(p, ce, pp). remaining (reader p))", goal_cases)
  case 1
  show ?case by simp
next
  have frag: "remaining r' < remaining r"
    if "collectFragments r acc = ((s, None), r')" for r acc s r'
    using that
  proof (induction r acc rule: collectFragments.induct)
    case (1 r acc)
    show ?case
    proof (cases "newline \<in> set (buffered r)")
      case True
      then have "dropWhile (\<lambda>c. c \<noteq> newline) (buffered r) \<noteq> []"
        by (simp add: dropWhile_eq_Nil_conv)
      moreover have "length (dropWhile (\<lambda>c. c \<noteq> newline) (buffered r)) \<le> length (buffered r)"
        by (rule length_dropWhile_le)
      ultimately have "length (tl (dropWhile (\<lambda>c. c \<noteq> newline) (buffered r))) < length (buffered r)"
        by (cases "dropWhile (\<lambda>c. c \<noteq> newline) (buffered r)") auto
      with True "1.prems" show ?thesis
        by (subst (asm) collectFragments.simps) (auto simp: remaining_def)
    next
      case False
      note nl = this
      show ?thesis
      proof (cases "source r = []")
        case True
        with nl "1.prems" show ?thesis
          by (subst (asm) collectFragments.simps) simp
      next
        case False
        note src = this
        show ?thesis
        proof (cases "bufSize \<le> length (buffered r)")
          case True
          with nl src "1.prems" have "collectFragments (r\<lparr>buffered := []\<rparr>) (acc @ buffered r) = ((s, None), r')"
            by (subst (asm) collectFragments.simps) simp
          with "1.IH"(1) [OF nl src True] have "remaining r' < remaining (r\<lparr>buffered := []\<rparr>)"
            by simp
          then show ?thesis
            by (simp add: remaining_def)
        next
          case False
          let ?r = "r\<lparr>buffered := buffered r @ take (bufSize - length (buffered r)) (source r),
                      source := drop (bufSize - length (buffered r)) (source r)\<rparr>"
          from False nl src "1.prems" have "collectFragments ?r acc = ((s, None), r')"
            by (subst (asm) collectFragments.simps) simp
          with "1.IH"(2) [OF nl src False] have "remaining r' < remaining ?r"
            by simp
          then show ?thesis
            by (simp add: remaining_def)
        qed
      qed
    qed
  qed
  have line: "remaining r' < remaining r" if "readLine r = Inr (l, r')" for r l r'
    using that frag [of r "[]"]
    by (auto simp: readLine_def ReadString_def split: prod.splits option.splits)
  {
    case 2
    then show ?case using line by auto
  next
    case 3
    then show ?case using line by auto
  next
    case 4
    then show ?case using line by auto
  next
    case 5
    then show ?case using line by auto
  next
    case 6
    then show ?case using line by auto
  }
qed

declare headerLoop.simps [simp del]

definition parseHeader :: "PLY \<Rightarrow> error + PLY" where
  "parseHeader p =
     (case readLine (reader p) of Inl e \<Rightarrow> Inl e
      | Inr (line, r) \<Rightarrow>
          if line \<noteq> ''ply'' then Inl (ErrorString (filename p @ '' is not a ply file.''))
          else
            (case readLine r of Inl e \<Rightarrow> Inl e
             | Inr (line2, r2) \<Rightarrow>
                 let p = p\<lparr>reader := r2, currentLine := currentLine p + 2\<rparr>;
                     words = FindAll wordMatcher line2
                 in if length words \<noteq> 3 then Inl (formatError p)
                    else if words ! 0 \<noteq> ''format'' then Inl (formatError p)
                    else if words ! 1 = ''ascii'' then headerLoop (p\<lparr>FileType := Ascii\<rparr>) (- 1) 0
                    else if words ! 1 = ''binary_big_endian''
                      then headerLoop (p\<lparr>FileType := BinaryBigEndian\<rparr>) (- 1) 0
                    else if words ! 1 = ''binary_little_endian''
                      then headerLoop (p\<lparr>FileType := BinaryLittleEndian\<rparr>) (- 1) 0
                    else Inl (formatError p)))"

subsection \<open>Row buffers\<close>

text \<open>
  The buffer a list row is collected in: its backing array (whose length is the capacity)
  and its length. No other reference to the array exists while it grows.
\<close>

record buffer =
  backing :: string
  blen :: nat

definition makeBuffer :: "int \<Rightarrow> error + buffer" where
  \<comment> \<open>\<^verbatim>\<open>make([]byte, n)\<close>\<close>
  "makeBuffer n =
     (if n < 0 then Inl (Panic MakeSliceLenOutOfRange)
      else Inr \<lparr>backing = replicate (nat n) (CHR 0x00), blen = nat n\<rparr>)"

definition bufferBytes :: "buffer \<Rightarrow> string" where
  "bufferBytes b = take (blen b) (backing b)"

definition bytesOf :: "string option \<Rightarrow> string" where
  "bytesOf b = (case b of None \<Rightarrow> [] | Some bs \<Rightarrow> bs)"

definition appendBytes :: "buffer \<Rightarrow> string \<Rightarrow> buffer" where
  "appendBytes sl data =
     (let l = blen sl;
          slice1 = (if l + length data > length (backing sl)
                    then \<lparr>backing = take l (backing sl) @
                                    replicate ((l + length data) * 2 - l) (CHR 0x00),
                          blen = (l + length data) * 2\<rparr>
                    else sl);
          slice2 = slice1\<lparr>blen := l + length data\<rparr>
      in slice2\<lparr>backing := take l (backing slice2) @ data @
                             drop (l + length data) (backing slice2)\<rparr>)"

definition makeData :: "int \<Rightarrow> Property \<Rightarrow> error + Property" where
  \<comment> \<open>\<^verbatim>\<open>prop.Data = make([][]byte, elem.Size)\<close>\<close>
  "makeData n prop =
     (if n < 0 then Inl (Panic MakeSliceLenOutOfRange)
      else Inr (prop\<lparr>Data := replicate (nat n) None\<rparr>))"

fun makeAllData :: "int \<Rightarrow> Property list \<Rightarrow> error + Property list" where
  "makeAllData n [] = Inr []"
| "makeAllData n (prop # props) =
     (case makeData n prop of Inl e \<Rightarrow> Inl e
      | Inr prop' \<Rightarrow>
          (case makeAllData n props of Inl e \<Rightarrow> Inl e
           | Inr props' \<Rightarrow> Inr (prop' # props')))"

definition setData :: "Property \<Rightarrow> int \<Rightarrow> string option \<Rightarrow> error + Property" where
  \<comment> \<open>\<^verbatim>\<open>prop.Data[i] = b\<close>\<close>
  "setData prop i b =
     (if 0 \<le> i \<and> i < int (length (Data prop)) then Inr (prop\<lparr>Data := (Data prop)[nat i := b]\<rparr>)
      else Inl (Panic (IndexOutOfRange i (length (Data prop)))))"

subsection \<open>parseBinary\<close>

definition readInto :: "Reader \<Rightarrow> nat \<Rightarrow> string \<times> Reader" where
  \<comment> \<open>\<^verbatim>\<open>b = make([]byte, k); rd.Read(b)\<close>: the result of \<^verbatim>\<open>Read\<close> is dropped\<close>
  "readInto rd k =
     (case Read rd k of ((bs, e), rd') \<Rightarrow> (bs @ replicate (k - length bs) (CHR 0x00), rd'))"

definition toBType :: "Reader \<Rightarrow> string \<Rightarrow> (string option \<times> error option) \<times> Reader" where
  "toBType rd typeName =
     (if typeName = Types ! 1 \<or> typeName = OldTypes ! 1 then
        (case readInto rd 1 of (b, rd') \<Rightarrow> ((Some b, None), rd'))
      else if typeName = Types ! 2 \<or> typeName = OldTypes ! 2 then
        (case readInto rd 2 of (b, rd') \<Rightarrow> ((Some b, None), rd'))
      else if typeName = Types ! 3 \<or> typeName = OldTypes ! 3 then
        (case readInto rd 4 of (b, rd') \<Rightarrow> ((Some b, None), rd'))
      else if typeName = Types ! 4 \<or> typeName = OldTypes ! 4 then
        (case readInto rd 1 of (b, rd') \<Rightarrow> ((Some b, None), rd'))
      else if typeName = Types ! 5 \<or> typeName = OldTypes ! 5 then
        (case readInto rd 2 of (b, rd') \<Rightarrow> ((Some b, None), rd'))
      else if typeName = Types ! 6 \<or> typeName = OldTypes ! 6 then
        (case readInto rd 4 of (b, rd') \<Rightarrow> ((Some b, None), rd'))
      else if typeName = Types ! 7 \<or> typeName = OldTypes ! 7 then
        (case readInto rd 4 of (b, rd') \<Rightarrow> ((Some b, None), rd'))
      else if typeName = Types ! 8 \<or> typeName = OldTypes ! 8 then
        (case readInto rd 8 of (b, rd') \<Rightarrow> ((Some b, None), rd'))
      else ((None, None), rd))"

function binaryList :: "Reader \<Rightarrow> string \<Rightarrow> buffer \<Rightarrow> int \<Rightarrow> int \<Rightarrow> error + (buffer \<times> Reader)" where
  \<comment> \<open>\<^verbatim>\<open>for j := 0; j < numSize; j++\<close> of the list branch\<close>
  "binaryList r typeName l j numSize =
     (if j < numSize then
        (case toBType r typeName of
           ((b, Some e), r') \<Rightarrow> Inl e
         | ((b, None), r') \<Rightarrow> binaryList r' typeName (appendBytes l (bytesOf b)) (j + 1) numSize)
      else Inr (l, r))"
  by pat_completeness auto
termination
  by (relation "measure (\<lambda>(r, t, l, j, n). nat (n - j))") auto

declare binaryList.simps [simp del]

definition binaryProp :: "ByteOrder option \<Rightarrow> Reader \<Rightarrow> Property \<Rightarrow> int \<Rightarrow> error + (Property \<times> Reader)" where
  \<comment> \<open>the body of the loop over the properties of row \<open>i\<close>\<close>
  "binaryProp order r prop i =
     (if IsList prop then
        (case ReadFull r 4 of Inl e \<Rightarrow> Inl e
         | Inr (bs, r1) \<Rightarrow>
             (case order of None \<Rightarrow> Inl (Panic NilByteOrder)
              | Some bo \<Rightarrow>
                  let numSize = int (unat (Uint32 bo bs))
                  in case makeBuffer (numSize * SizeOfType (Type prop)) of Inl e \<Rightarrow> Inl e
                     | Inr l \<Rightarrow>
                         (case binaryList r1 (Type prop) l 0 numSize of Inl e \<Rightarrow> Inl e
                          | Inr (l', r2) \<Rightarrow>
                              (case setData prop i (Some (bufferBytes l')) of Inl e \<Rightarrow> Inl e
                               | Inr prop' \<Rightarrow> Inr (prop', r2)))))
      else
        (case toBType r (Type prop) of
           ((b, Some e), r1) \<Rightarrow> Inl e
         | ((b, None), r1) \<Rightarrow>
             (case setData prop i b of Inl e \<Rightarrow> Inl e
              | Inr prop' \<Rightarrow> Inr (prop', r1))))"

fun binaryProps :: "ByteOrder option \<Rightarrow> Reader \<Rightarrow> Property list \<Rightarrow> int \<Rightarrow> error + (Property list \<times> Reader)" where
  "binaryProps order r [] i = Inr ([], r)"
| "binaryProps order r (prop # props) i =
     (case binaryProp order r prop i of Inl e \<Rightarrow> Inl e
      | Inr (prop', r1) \<Rightarrow>
          (case binaryProps order r1 props i of Inl e \<Rightarrow> Inl e
           | Inr (props', r2) \<Rightarrow> Inr (prop' # props', r2)))"

function binaryRows :: "ByteOrder option \<Rightarrow> Reader \<Rightarrow> Property list \<Rightarrow> int \<Rightarrow> int \<Rightarrow> error + (Property list \<times> Reader)" where
  \<comment> \<open>\<^verbatim>\<open>for i := 0; i < elem.Size; i++\<close>\<close>
  "binaryRows order r props i n =
     (if i < n then
        (case binaryProps order r props i of Inl e \<Rightarrow> Inl e
         | Inr (props', r') \<Rightarrow> binaryRows order r' props' (i + 1) n)
      else Inr (props, r))"
  by pat_completeness auto
termination
  by (relation "measure (\<lambda>(bo, r, props, i, n). nat (n - i))") auto

declare binaryRows.simps [simp del]

fun binaryElems :: "ByteOrder option \<Rightarrow> Reader \<Rightarrow> Element list \<Rightarrow> error + (Element list \<times> Reader)" where
  "binaryElems order r [] = Inr ([], r)"
| "binaryElems order r (elem # elems) =
     (case makeAllData (Size elem) (Properties elem) of Inl e \<Rightarrow> Inl e
      | Inr props \<Rightarrow>
          (case binaryRows order r props 0 (Size elem) of Inl e \<Rightarrow> Inl e
           | Inr (props', r1) \<Rightarrow>
               (case binaryElems order r1 elems of Inl e \<Rightarrow> Inl e
                | Inr (elems', r2) \<Rightarrow> Inr (elem\<lparr>Properties := props'\<rparr> # elems', r2))))"

definition parseBinary :: "PLY \<Rightarrow> error + PLY" where
  "parseBinary p =
     (case binaryElems (byteOrder p) (reader p) (Elements p) of Inl e \<Rightarrow> Inl e
      | Inr (elems, r) \<Rightarrow> Inr (p\<lparr>Elements := elems, reader := r\<rparr>))"

definition parseBinaryBigEndian :: "PLY \<Rightarrow> error + PLY" where
  "parseBinaryBigEndian p = parseBinary (p\<lparr>byteOrder := Some BigEndian\<rparr>)"

definition parseBinaryLittleEndian :: "PLY \<Rightarrow> error + PLY" where
  "parseBinaryLittleEndian p = parseBinary (p\<lparr>byteOrder := Some LittleEndian\<rparr>)"

subsection \<open>parseASCII\<close>

function asciiList :: "parseFloat \<Rightarrow> string list \<Rightarrow> int \<Rightarrow> string \<Rightarrow> buffer \<Rightarrow> int \<Rightarrow> int \<Rightarrow> error + (buffer \<times> int)" where
  \<comment> \<open>\<^verbatim>\<open>for j := 0; j < numSize; j++\<close> of the list branch; returns \<open>l\<close> and \<open>currWord\<close>\<close>
  "asciiList pf words currWord typeName l j numSize =
     (if j < numSize then
        (case index words currWord of Inl e \<Rightarrow> Inl e
         | Inr w \<Rightarrow>
             (case toType pf w typeName of Inl e \<Rightarrow> Inl e
              | Inr b \<Rightarrow>
                  asciiList pf words (currWord + 1) typeName (appendBytes l (bytesOf b)) (j + 1) numSize))
      else Inr (l, currWord))"
  by pat_completeness auto
termination
  by (relation "measure (\<lambda>(pf, ws, cw, t, l, j, n). nat (n - j))") auto

declare asciiList.simps [simp del]

fun asciiProps :: "parseFloat \<Rightarrow> string list \<Rightarrow> int \<Rightarrow> Property list \<Rightarrow> int \<Rightarrow> error + Property list" where
  \<comment> \<open>the loop over the properties of row \<open>i\<close>; the scalar branch leaves \<open>currWord\<close> as it is\<close>
  "asciiProps pf words currWord [] i = Inr []"
| "asciiProps pf words currWord (prop # props) i =
     (if IsList prop then
        (case index words currWord of Inl e \<Rightarrow> Inl e
         | Inr w \<Rightarrow>
             (case ParseInt w 10 32 of Inl e \<Rightarrow> Inl e
              | Inr numSize \<Rightarrow>
                  (case makeBuffer (numSize * SizeOfType (Type prop)) of Inl e \<Rightarrow> Inl e
                   | Inr l \<Rightarrow>
                       (case asciiList pf words (currWord + 1) (Type prop) l 0 numSize of Inl e \<Rightarrow> Inl e
                        | Inr (l', currWord') \<Rightarrow>
                            (case setData prop i (Some (bufferBytes l')) of Inl e \<Rightarrow> Inl e
                             | Inr prop' \<Rightarrow>
                                 (case asciiProps pf words currWord' props i of Inl e \<Rightarrow> Inl e
                                  | Inr props' \<Rightarrow> Inr (prop' # props')))))))
      else
        (case index words currWord of Inl e \<Rightarrow> Inl e
         | Inr w \<Rightarrow>
             (case toType pf w (Type prop) of Inl e \<Rightarrow> Inl e
              | Inr b \<Rightarrow>
                  (case setData prop i b of Inl e \<Rightarrow> Inl e
                   | Inr prop' \<Rightarrow>
                       (case asciiProps pf words currWord props i of Inl e \<Rightarrow> Inl e
                        | Inr props' \<Rightarrow> Inr (prop' # props'))))))"

definition asciiRow :: "parseFloat \<Rightarrow> string \<Rightarrow> Property list \<Rightarrow> int \<Rightarrow> error + Property list" where
  \<comment> \<open>what one body line does to the properties of row \<open>i\<close>\<close>
  "asciiRow pf line props i =
     (let words = FindAll numMatcher line
      in if words = [] then Inr props else asciiProps pf words 0 props i)"

function asciiRows :: "parseFloat \<Rightarrow> Reader \<Rightarrow> Property list \<Rightarrow> int \<Rightarrow> int \<Rightarrow> error + (Property list \<times> Reader)" where
  \<comment> \<open>\<^verbatim>\<open>for i := 0; i < elem.Size; i++\<close>\<close>
  "asciiRows pf r props i n =
     (if i < n then
        (case readLine r of Inl e \<Rightarrow> Inl e
         | Inr (line, r') \<Rightarrow>
             (case asciiRow pf line props i of Inl e \<Rightarrow> Inl e
              | Inr props' \<Rightarrow> asciiRows pf r' props' (i + 1) n))
      else Inr (props, r))"
  by pat_completeness auto
termination
  by (relation "measure (\<lambda>(pf, r, props, i, n). nat (n - i))") auto

declare asciiRows.simps [simp del]

fun asciiElems :: "parseFloat \<Rightarrow> Reader \<Rightarrow> Element list \<Rightarrow> error + (Element list \<times> Reader)" where
  "asciiElems pf r [] = Inr ([], r)"
| "asciiElems pf r (elem # elems) =
     (case makeAllData (Size elem) (Properties elem) of Inl e \<Rightarrow> Inl e
      | Inr props \<Rightarrow>
          (case asciiRows pf r props 0 (Size elem) of Inl e \<Rightarrow> Inl e
           | Inr (props', r1) \<Rightarrow>
               (case asciiElems pf r1 elems of Inl e \<Rightarrow> Inl e
                | Inr (elems', r2) \<Rightarrow> Inr (elem\<lparr>Properties := props'\<rparr> # elems', r2))))"

definition parseASCII :: "parseFloat \<Rightarrow> PLY \<Rightarrow> error + PLY" where
  "parseASCII pf p =
     (case asciiElems pf (reader p) (Elements p) of Inl e \<Rightarrow> Inl e
      | Inr (elems, r) \<Rightarrow> Inr (p\<lparr>Elements := elems, reader := r, byteOrder := Some LittleEndian\<rparr>))"

subsection \<open>Load and the accessors\<close>

definition Load :: "parseFloat \<Rightarrow> (string \<Rightarrow> string option) \<Rightarrow> PLY \<Rightarrow> string \<Rightarrow> error + PLY" where
  \<comment> \<open>\<open>fs\<close> gives the contents of the files that can be opened\<close>
  "Load pf fs p name =
     (case fs name of None \<Rightarrow> Inl (PathError name)
      | Some content \<Rightarrow>
          (case parseHeader (p\<lparr>filename := name, reader := NewReader content\<rparr>) of Inl e \<Rightarrow> Inl e
           | Inr p' \<Rightarrow>
               if FileType p' = BinaryBigEndian then parseBinaryBigEndian p'
               else if FileType p' = BinaryLittleEndian then parseBinaryLittleEndian p'
               else if FileType p' = Ascii then parseASCII pf p'
               else Inl (ErrorString ''File type error'')))"

fun vertexIndex :: "Element list \<Rightarrow> nat \<Rightarrow> nat option" where
  \<comment> \<open>the \<open>flag\<close> and \<open>count\<close> of the search for the element \<^verbatim>\<open>vertex\<close>\<close>
  "vertexIndex [] count = None"
| "vertexIndex (elem # elems) count =
     (if ElemName elem = ''vertex'' then Some count else vertexIndex elems (count + 1))"

fun readColumn :: "ByteOrder option \<Rightarrow> string option list \<Rightarrow> nat \<Rightarrow> 32 word list \<Rightarrow> error + 32 word list" where
  \<comment> \<open>\<^verbatim>\<open>binary.Read(buf, p.byteOrder, &data[j][i])\<close> for each row buffer; a float32 is given
     by its bit pattern, and a failed read leaves the 0 of \<^verbatim>\<open>make\<close>\<close>
  "readColumn order [] i col = Inr col"
| "readColumn order (v # vs) i col =
     (if i \<ge> length col then Inl (Panic (IndexOutOfRange (int i) (length col)))
      else if length (bytesOf v) < 4 then readColumn order vs (i + 1) col
      else case order of None \<Rightarrow> Inl (Panic NilByteOrder)
           | Some bo \<Rightarrow> readColumn order vs (i + 1) (col[i := Uint32 bo (bytesOf v)]))"

definition vertexColumn :: "PLY \<Rightarrow> Element \<Rightarrow> int \<Rightarrow> error + 32 word list" where
  "vertexColumn p elem j =
     (case index (Properties elem) j of Inl e \<Rightarrow> Inl e
      | Inr prop \<Rightarrow>
          if Size elem < 0 then Inl (Panic MakeSliceLenOutOfRange)
          else readColumn (byteOrder p) (Data prop) 0 (replicate (nat (Size elem)) 0))"

definition ReadVertices :: "PLY \<Rightarrow> error + 32 word list list option" where
  "ReadVertices p =
     (case vertexIndex (Elements p) 0 of None \<Rightarrow> Inr None
      | Some count \<Rightarrow>
          (case vertexColumn p (Elements p ! count) 0 of Inl e \<Rightarrow> Inl e
           | Inr x \<Rightarrow>
               (case vertexColumn p (Elements p ! count) 1 of Inl e \<Rightarrow> Inl e
                | Inr y \<Rightarrow>
                    (case vertexColumn p (Elements p ! count) 2 of Inl e \<Rightarrow> Inl e
                     | Inr z \<Rightarrow> Inr (Some [x, y, z])))))"

subsection \<open>Documents line by line\<close>

definition textLine :: "string \<Rightarrow> string \<Rightarrow> string" where
  \<comment> \<open>a file that starts with the line \<open>l\<close>\<close>
  "textLine l rest = l @ newline # rest"

definition isGraphic :: "char \<Rightarrow> bool" where
  \<comment> \<open>a printable ASCII character other than the space\<close>
  "isGraphic c = (CHR 0x21 \<le> c \<and> c \<le> CHR 0x7E)"

definition contentsOf :: "Reader \<Rightarrow> string" where
  \<comment> \<open>what is still to be read\<close>
  "contentsOf r = buffered r @ source r"

definition rowBuffers :: "PLY \<Rightarrow> string option list list list" where
  \<comment> \<open>the row buffers of a document, by element and property\<close>
  "rowBuffers p = map (\<lambda>e. map Data (Properties e)) (Elements p)"

definition wfBuffer :: "buffer \<Rightarrow> bool" where
  \<comment> \<open>the length of a slice is at most its capacity\<close>
  "wfBuffer b = (blen b \<le> length (backing b))"

definition recognized :: "string \<Rightarrow> bool" where
  \<comment> \<open>one of the eight scalar types, in either spelling\<close>
  "recognized t = (t \<in> set (tl Types) \<or> t \<in> set (tl OldTypes))"

definition width :: "string \<Rightarrow> nat" where
  "width t = nat (SizeOfType t)"

fun readItems :: "Reader \<Rightarrow> nat \<Rightarrow> nat \<Rightarrow> string \<times> Reader" where
  \<comment> \<open>\<open>k\<close> reads of \<open>w\<close> bytes each, as \<open>readInto\<close> does them, one after the other\<close>
  "readItems r w 0 = ([], r)"
| "readItems r w (Suc k) =
     (case readInto r w of (b, r1) \<Rightarrow> (case readItems r1 w k of (bs, r2) \<Rightarrow> (b @ bs, r2)))"

definition onlyFile :: "string \<Rightarrow> string \<Rightarrow> string \<Rightarrow> string option" where
  \<comment> \<open>a file system that holds one file\<close>
  "onlyFile name content n = (if n = name then Some content else None)"

definition noFloats :: parseFloat where
  \<comment> \<open>for loads that never reach \<^verbatim>\<open>ParseFloat\<close>\<close>
  "noFloats s bitSize = Inl (NumError ''ParseFloat'' s ErrSyntax)"

definition bufferAligned :: "nat \<Rightarrow> string option \<Rightarrow> bool" where
  \<comment> \<open>a row buffer that is nil, or whose length is a multiple of \<open>w\<close>\<close>
  "bufferAligned w row = (case row of None \<Rightarrow> True | Some b \<Rightarrow> w dvd length b)"

definition rowsAligned :: "Property \<Rightarrow> bool" where
  \<comment> \<open>for a list property of a recognized type: every row buffer is aligned to its width\<close>
  "rowsAligned prop =
     (IsList prop \<and> recognized (Type prop) \<longrightarrow>
        list_all (bufferAligned (width (Type prop))) (Data prop))"

definition elemAligned :: "Element \<Rightarrow> bool" where
  "elemAligned elem = list_all rowsAligned (Properties elem)"

definition isIdent :: "string \<Rightarrow> bool" where
  \<comment> \<open>a word of the header tokenizer that does not start with a digit\<close>
  "isIdent w = (w \<noteq> [] \<and> list_all isWord w \<and> \<not> isDigit (hd w))"

definition isNumeral :: "string \<Rightarrow> bool" where
  "isNumeral w = (w \<noteq> [] \<and> list_all isDigit w)"

definition isToken :: "string \<Rightarrow> bool" where
  "isToken w = (isIdent w \<or> isNumeral w)"

fun joinSpace :: "string list \<Rightarrow> string" where
  \<comment> \<open>the tokens of a line, one space between them\<close>
  "joinSpace [] = []"
| "joinSpace [t] = t"
| "joinSpace (t # u # ts) = t @ CHR '' '' # joinSpace (u # ts)"

section \<open>Facts about the library model\<close>

lemma collectFragments_newline:
  assumes "newline \<in> set (buffered r)"
  shows "collectFragments r acc =
           ((acc @ takeWhile (\<lambda>c. c \<noteq> newline) (buffered r) @ [newline], None),
            r\<lparr>buffered := tl (dropWhile (\<lambda>c. c \<noteq> newline) (buffered r))\<rparr>)"
  using assms by (subst collectFragments.simps) simp

lemma readLine_buffered:
  assumes "newline \<notin> set l"
  shows "readLine \<lparr>buffered = textLine l rest, source = src\<rparr>
           = Inr (strip (l @ [newline]), \<lparr>buffered = rest, source = src\<rparr>)"
proof -
  have "takeWhile (\<lambda>c. c \<noteq> newline) (l @ newline # rest) = l"
    using assms by (induction l) auto
  moreover have "dropWhile (\<lambda>c. c \<noteq> newline) (l @ newline # rest) = newline # rest"
    using assms by (induction l) auto
  ultimately show ?thesis
    by (simp add: readLine_def ReadString_def collectFragments_newline textLine_def)
qed

lemma readLine_first:
  assumes "newline \<notin> set l" and "length (textLine l rest) \<le> bufSize"
  shows "readLine (NewReader (textLine l rest))
           = Inr (strip (l @ [newline]), \<lparr>buffered = rest, source = []\<rparr>)"
proof -
  have "collectFragments (NewReader (textLine l rest)) []
          = collectFragments \<lparr>buffered = textLine l rest, source = []\<rparr> []"
    using assms(2)
    by (subst collectFragments.simps) (simp add: NewReader_def textLine_def bufSize_def)
  then have "readLine (NewReader (textLine l rest))
               = readLine \<lparr>buffered = textLine l rest, source = []\<rparr>"
    by (simp add: readLine_def ReadString_def)
  with assms(1) show ?thesis
    by (simp add: readLine_buffered)
qed

lemma isGraphic_ascii:
  assumes "isGraphic c"
  shows "c < CHR 0x80" and "\<not> isAsciiSpace c"
proof -
  from assms have "c \<le> CHR 0x7E"
    by (simp add: isGraphic_def)
  moreover have "CHR 0x7E < CHR 0x80"
    by simp
  ultimately show "c < CHR 0x80"
    by (rule le_less_trans)
  from assms show "\<not> isAsciiSpace c"
    by (auto simp: isGraphic_def isAsciiSpace_def)
qed

lemma isSpaceSeq_last:
  assumes "isSpaceSeq s"
  shows "s \<noteq> [] \<and> \<not> isGraphic (last s)"
  using assms
proof (induction s rule: isSpaceSeq.induct)
  case (3 c d e)
  have "\<not> e < CHR 0x80"
    using "3.prems" by auto
  then show ?case
    using isGraphic_ascii(1) by auto
qed (auto dest: isGraphic_ascii)

lemma isSpaceSeq_hd:
  assumes "isSpaceSeq s"
  shows "s \<noteq> [] \<and> \<not> isGraphic (hd s)"
  using assms
  by (induction s rule: isSpaceSeq.induct) (auto dest: isGraphic_ascii)

lemma spaceWidth_graphic:
  assumes "s \<noteq> []" and "isGraphic (hd s)"
  shows "spaceWidth s = 0"
proof -
  have "\<not> isSpaceSeq (take k s)" if "0 < k" for k
  proof
    assume "isSpaceSeq (take k s)"
    then have "\<not> isGraphic (hd (take k s))"
      by (simp add: isSpaceSeq_hd)
    with that assms show False
      by (cases s; cases k) auto
  qed
  then show ?thesis
    by (simp add: spaceWidth_def)
qed

lemma spaceWidthLast_graphic:
  assumes "s \<noteq> []" and "isGraphic (last s)"
  shows "spaceWidthLast s = 0"
proof -
  have "\<not> isSpaceSeq (drop (length s - k) s)" if "0 < k" for k
  proof
    assume "isSpaceSeq (drop (length s - k) s)"
    then have ne: "drop (length s - k) s \<noteq> []"
      and ng: "\<not> isGraphic (last (drop (length s - k) s))"
      using isSpaceSeq_last by blast+
    from ne have "length s - k < length s"
      by simp
    then have "last (drop (length s - k) s) = last s"
      by (rule last_drop)
    with ng assms show False
      by simp
  qed
  then show ?thesis
    by (simp add: spaceWidthLast_def)
qed

lemma TrimLeft_graphic:
  assumes "s \<noteq> []" and "isGraphic (hd s)"
  shows "TrimLeft s = s"
  using assms by (subst TrimLeft.simps) (simp add: spaceWidth_graphic)

lemma TrimRight_graphic:
  assumes "s \<noteq> []" and "isGraphic (last s)"
  shows "TrimRight s = s"
  using assms by (subst TrimRight.simps) (simp add: spaceWidthLast_graphic)

lemma TrimRight_newline: "TrimRight (s @ [newline]) = TrimRight s"
proof -
  have "spaceWidthLast (s @ [newline]) = 1"
    by (simp add: spaceWidthLast_def isAsciiSpace_def newline_def)
  then show ?thesis
    by (subst TrimRight.simps) simp
qed

lemma strip_graphic:
  assumes "l \<noteq> []" and "isGraphic (hd l)" and "isGraphic (last l)"
  shows "strip (l @ [newline]) = l"
proof -
  have "TrimLeft (l @ [newline]) = l @ [newline]"
    using assms by (simp add: TrimLeft_graphic)
  then show ?thesis
    using assms by (simp add: strip_def TrimSpace_def TrimRight_newline TrimRight_graphic)
qed

lemma readLine_buffered_graphic:
  assumes "newline \<notin> set l" and "l \<noteq> []" and "isGraphic (hd l)" and "isGraphic (last l)"
  shows "readLine \<lparr>buffered = textLine l rest, source = src\<rparr>
           = Inr (l, \<lparr>buffered = rest, source = src\<rparr>)"
  using assms by (simp add: readLine_buffered strip_graphic)

lemma readLine_first_graphic:
  assumes "newline \<notin> set l" and "length (textLine l rest) \<le> bufSize"
    and "l \<noteq> []" and "isGraphic (hd l)" and "isGraphic (last l)"
  shows "readLine (NewReader (textLine l rest)) = Inr (l, \<lparr>buffered = rest, source = []\<rparr>)"
  using assms by (simp add: readLine_first strip_graphic)

subsection \<open>Reading a line from any reader\<close>

lemma first_newline_unique:
  assumes "a @ newline # b = l @ newline # rest" and "newline \<notin> set a" and "newline \<notin> set l"
  shows "a = l \<and> b = rest"
  using assms
proof (induction a arbitrary: l)
  case Nil
  then show ?case by (cases l) auto
next
  case (Cons x a)
  then show ?case by (cases l) auto
qed

lemma prefix_before_newline:
  assumes "a @ s = l @ newline # rest" and "newline \<notin> set a"
  shows "\<exists>l'. l = a @ l' \<and> s = l' @ newline # rest"
  using assms
proof (induction a arbitrary: l)
  case Nil
  then show ?case by simp
next
  case (Cons x a)
  then show ?case by (cases l) auto
qed

lemma collectFragments_line:
  assumes "contentsOf r = l @ newline # rest" and "newline \<notin> set l"
  shows "\<exists>r'. collectFragments r acc = ((acc @ l @ [newline], None), r') \<and> contentsOf r' = rest"
  using assms
proof (induction r acc arbitrary: l rule: collectFragments.induct)
  case (1 r acc)
  show ?case
  proof (cases "newline \<in> set (buffered r)")
    case True
    then obtain a b where ab: "buffered r = a @ newline # b" "newline \<notin> set a"
      by (auto dest: split_list_first)
    with "1.prems" have "a @ newline # (b @ source r) = l @ newline # rest"
      by (simp add: contentsOf_def)
    with ab "1.prems" have eq: "a = l" "b @ source r = rest"
      using first_newline_unique by blast+
    have "takeWhile (\<lambda>c. c \<noteq> newline) (a @ newline # b) = a"
      using ab(2) by (induction a) auto
    moreover have "dropWhile (\<lambda>c. c \<noteq> newline) (a @ newline # b) = newline # b"
      using ab(2) by (induction a) auto
    ultimately show ?thesis
      using True ab eq by (subst collectFragments.simps) (simp add: contentsOf_def)
  next
    case False
    note nl = this
    show ?thesis
    proof (cases "source r = []")
      case True
      with nl "1.prems" show ?thesis
        by (auto simp: contentsOf_def)
    next
      case False
      note src = this
      show ?thesis
      proof (cases "bufSize \<le> length (buffered r)")
        case True
        from "1.prems"(1) nl obtain l' where l': "l = buffered r @ l'" "source r = l' @ newline # rest"
          using prefix_before_newline [of "buffered r" "source r" l rest]
          by (auto simp: contentsOf_def)
        with "1.prems"(2) have "newline \<notin> set l'"
          by simp
        with "1.IH"(1) [OF nl src True, of l'] l'(2)
        obtain r' where "collectFragments (r\<lparr>buffered := []\<rparr>) (acc @ buffered r)
                           = (((acc @ buffered r) @ l' @ [newline], None), r')"
          "contentsOf r' = rest"
          by (auto simp: contentsOf_def)
        with nl src True l'(1) show ?thesis
          by (subst collectFragments.simps) simp
      next
        case False
        let ?r = "r\<lparr>buffered := buffered r @ take (bufSize - length (buffered r)) (source r),
                    source := drop (bufSize - length (buffered r)) (source r)\<rparr>"
        have "contentsOf ?r = contentsOf r"
          by (simp add: contentsOf_def)
        with "1.IH"(2) [OF nl src False, of l] "1.prems"
        obtain r' where "collectFragments ?r acc = ((acc @ l @ [newline], None), r')"
          "contentsOf r' = rest"
          by auto
        with nl src False show ?thesis
          by (subst collectFragments.simps) simp
      qed
    qed
  qed
qed

lemma collectFragments_eof:
  assumes "newline \<notin> set (contentsOf r)"
  shows "\<exists>r'. collectFragments r acc = ((acc @ contentsOf r, Some EOF), r')"
  using assms
proof (induction r acc rule: collectFragments.induct)
  case (1 r acc)
  from "1.prems" have nl: "newline \<notin> set (buffered r)"
    by (simp add: contentsOf_def)
  show ?case
  proof (cases "source r = []")
    case True
    with nl show ?thesis
      by (subst collectFragments.simps) (simp add: contentsOf_def)
  next
    case False
    note src = this
    show ?thesis
    proof (cases "bufSize \<le> length (buffered r)")
      case True
      from "1.prems" have "newline \<notin> set (contentsOf (r\<lparr>buffered := []\<rparr>))"
        by (simp add: contentsOf_def)
      with "1.IH"(1) [OF nl src True]
      obtain r' where "collectFragments (r\<lparr>buffered := []\<rparr>) (acc @ buffered r)
                         = (((acc @ buffered r) @ contentsOf (r\<lparr>buffered := []\<rparr>), Some EOF), r')"
        by auto
      with nl src True show ?thesis
        by (subst collectFragments.simps) (simp add: contentsOf_def)
    next
      case False
      let ?r = "r\<lparr>buffered := buffered r @ take (bufSize - length (buffered r)) (source r),
                  source := drop (bufSize - length (buffered r)) (source r)\<rparr>"
      have c: "contentsOf ?r = contentsOf r"
        by (simp add: contentsOf_def)
      with "1.prems" have "newline \<notin> set (contentsOf ?r)"
        by simp
      with "1.IH"(2) [OF nl src False]
      obtain r' where "collectFragments ?r acc = ((acc @ contentsOf ?r, Some EOF), r')"
        by auto
      with nl src False c show ?thesis
        by (subst collectFragments.simps) simp
    qed
  qed
qed

lemma readLine_line:
  assumes "contentsOf r = l @ newline # rest" and "newline \<notin> set l"
  shows "\<exists>r'. readLine r = Inr (strip (l @ [newline]), r') \<and> contentsOf r' = rest"
  using collectFragments_line [OF assms, of "[]"]
  by (auto simp: readLine_def ReadString_def)

lemma readLine_no_newline:
  assumes "newline \<notin> set (contentsOf r)"
  shows "readLine r = Inl EOF"
  using collectFragments_eof [OF assms, of "[]"]
  by (auto simp: readLine_def ReadString_def)

subsection \<open>Row buffers and binary reads\<close>

lemma appendBytes_bytes:
  assumes "wfBuffer l"
  shows "bufferBytes (appendBytes l data) = bufferBytes l @ data"
  using assms
  by (auto simp: appendBytes_def bufferBytes_def wfBuffer_def Let_def)

lemma appendBytes_wf:
  assumes "wfBuffer l"
  shows "wfBuffer (appendBytes l data)"
  using assms
  by (auto simp: appendBytes_def wfBuffer_def Let_def)

lemma makeBuffer_nonneg:
  assumes "0 \<le> n"
  shows "\<exists>l. makeBuffer n = Inr l \<and> wfBuffer l \<and> bufferBytes l = replicate (nat n) (CHR 0x00)"
  using assms by (simp add: makeBuffer_def wfBuffer_def bufferBytes_def)

lemma Read_length: "length (fst (fst (Read r n))) \<le> n"
  by (simp add: Read_def)

lemma readInto_length: "length (fst (readInto r k)) = k"
  using Read_length [of r k]
  by (auto simp: readInto_def split: prod.splits)

lemma toBType_recognized:
  assumes "recognized t"
  shows "toBType r t = ((Some (fst (readInto r (width t))), None), snd (readInto r (width t)))"
  using assms
  by (auto simp: recognized_def Types_def OldTypes_def toBType_def width_def SizeOfType_def
      SizeOfTypeTable_def split: prod.splits)

lemma readItems_length: "length (fst (readItems r w k)) = k * w"
proof (induction k arbitrary: r)
  case 0
  show ?case by simp
next
  case (Suc k)
  show ?case
    using Suc.IH [of "snd (readInto r w)"] readInto_length [of r w]
    by (auto split: prod.splits)
qed

lemma binaryList_readItems:
  assumes "recognized t" and "wfBuffer l" and "j \<le> n"
  shows "\<exists>l'. binaryList r t l j n = Inr (l', snd (readItems r (width t) (nat (n - j)))) \<and>
              wfBuffer l' \<and>
              bufferBytes l' = bufferBytes l @ fst (readItems r (width t) (nat (n - j)))"
  using assms
proof (induction r t l j n rule: binaryList.induct)
  case (1 r t l j n)
  show ?case
  proof (cases "j < n")
    case False
    with "1.prems" show ?thesis
      by (subst binaryList.simps) simp
  next
    case True
    then have k: "nat (n - j) = Suc (nat (n - (j + 1)))"
      by simp
    obtain b r1 where rd: "readInto r (width t) = (b, r1)"
      by (cases "readInto r (width t)")
    then have tb: "toBType r t = ((Some b, None), r1)"
      using "1.prems"(1) by (simp add: toBType_recognized)
    have "wfBuffer (appendBytes l (bytesOf (Some b)))"
      using "1.prems"(2) by (rule appendBytes_wf)
    from "1.IH" [OF True tb [symmetric] refl refl "1.prems"(1) this] True
    obtain l' where l': "binaryList r1 t (appendBytes l (bytesOf (Some b))) (j + 1) n
                       = Inr (l', snd (readItems r1 (width t) (nat (n - (j + 1)))))"
      "wfBuffer l'"
      "bufferBytes l' = bufferBytes (appendBytes l (bytesOf (Some b))) @
                        fst (readItems r1 (width t) (nat (n - (j + 1))))"
      by auto
    have "binaryList r t l j n = binaryList r1 t (appendBytes l (bytesOf (Some b))) (j + 1) n"
      using True tb by (subst binaryList.simps) simp
    with l' rd "1.prems"(2) show ?thesis
      by (simp add: k appendBytes_bytes bytesOf_def split: prod.splits)
  qed
qed

lemma Read_empty:
  assumes "0 < n" and "contentsOf r = []"
  shows "Read r n = (([], Some EOF), r)"
  using assms by (simp add: Read_def contentsOf_def)

lemma Read_nonempty:
  assumes "0 < n" and "contentsOf r \<noteq> []"
  shows "\<exists>bs r'. Read r n = ((bs, None), r') \<and> bs \<noteq> [] \<and> length bs \<le> n \<and>
                 contentsOf r = bs @ contentsOf r'"
proof (cases "buffered r = []")
  case False
  with assms show ?thesis
    by (simp add: Read_def contentsOf_def)
next
  case True
  with assms have src: "source r \<noteq> []"
    by (simp add: contentsOf_def)
  have "take n (take bufSize (source r)) @ drop n (take bufSize (source r)) @ drop bufSize (source r)
          = source r"
    by (simp only: append_assoc [symmetric] append_take_drop_id)
  with True src assms(1) show ?thesis
    by (auto simp: Read_def contentsOf_def bufSize_def)
qed

lemma ReadAtLeast_enough:
  assumes "n \<le> length (contentsOf r)"
  shows "\<exists>r'. ReadAtLeast r n acc = Inr (acc @ take n (contentsOf r), r') \<and>
              contentsOf r' = drop n (contentsOf r)"
  using assms
proof (induction n arbitrary: r acc rule: less_induct)
  case (less n)
  show ?case
  proof (cases "n = 0")
    case True
    then show ?thesis
      by (subst ReadAtLeast.simps) simp
  next
    case False
    with less.prems have "contentsOf r \<noteq> []"
      by auto
    with False obtain bs r1 where rd: "Read r n = ((bs, None), r1)" "bs \<noteq> []" "length bs \<le> n"
      "contentsOf r = bs @ contentsOf r1"
      using Read_nonempty [of n r] by auto
    from rd less.prems have le: "n - length bs \<le> length (contentsOf r1)"
      by simp
    from rd False have "n - length bs < n"
      by (cases bs) auto
    from less.IH [OF this le, of "acc @ bs"]
    obtain r' where r': "ReadAtLeast r1 (n - length bs) (acc @ bs)
                           = Inr ((acc @ bs) @ take (n - length bs) (contentsOf r1), r')"
      "contentsOf r' = drop (n - length bs) (contentsOf r1)"
      by auto
    have "ReadAtLeast r n acc = ReadAtLeast r1 (n - length bs) (acc @ bs)"
      using False rd by (subst ReadAtLeast.simps) simp
    with r' rd show ?thesis
      by simp
  qed
qed

lemma ReadAtLeast_short:
  assumes "length (contentsOf r) < n"
  shows "ReadAtLeast r n acc = Inl (if acc = [] \<and> contentsOf r = [] then EOF else ErrUnexpectedEOF)"
  using assms
proof (induction n arbitrary: r acc rule: less_induct)
  case (less n)
  then have n: "0 < n"
    by simp
  show ?case
  proof (cases "contentsOf r = []")
    case True
    with n show ?thesis
      by (subst ReadAtLeast.simps) (simp add: Read_empty)
  next
    case False
    with n obtain bs r1 where rd: "Read r n = ((bs, None), r1)" "bs \<noteq> []" "length bs \<le> n"
      "contentsOf r = bs @ contentsOf r1"
      using Read_nonempty [of n r] by auto
    from rd less.prems have lt: "length (contentsOf r1) < n - length bs"
      by simp
    from rd n have "n - length bs < n"
      by (cases bs) auto
    from less.IH [OF this lt, of "acc @ bs"] rd(2)
    have "ReadAtLeast r1 (n - length bs) (acc @ bs) = Inl ErrUnexpectedEOF"
      by simp
    moreover have "ReadAtLeast r n acc = ReadAtLeast r1 (n - length bs) (acc @ bs)"
      using n rd by (subst ReadAtLeast.simps) simp
    ultimately show ?thesis
      using False by simp
  qed
qed

lemma ReadFull_enough:
  assumes "n \<le> length (contentsOf r)"
  shows "\<exists>r'. ReadFull r n = Inr (take n (contentsOf r), r') \<and> contentsOf r' = drop n (contentsOf r)"
  using ReadAtLeast_enough [OF assms, of "[]"] by (simp add: ReadFull_def)

lemma ReadFull_short:
  assumes "length (contentsOf r) < n"
  shows "ReadFull r n = Inl (if contentsOf r = [] then EOF else ErrUnexpectedEOF)"
  using ReadAtLeast_short [OF assms, of "[]"] by (simp add: ReadFull_def)

lemma binaryProp_list:
  assumes "IsList prop" and "recognized (Type prop)" and "0 \<le> i" and "i < int (length (Data prop))"
    and "ReadFull r 4 = Inr (bs, r1)"
  shows "binaryProp (Some bo) r prop i =
           Inr (prop\<lparr>Data := (Data prop)[nat i :=
                   Some (replicate (unat (Uint32 bo bs) * width (Type prop)) (CHR 0x00) @
                         fst (readItems r1 (width (Type prop)) (unat (Uint32 bo bs))))]\<rparr>,
                snd (readItems r1 (width (Type prop)) (unat (Uint32 bo bs))))"
proof -
  let ?N = "unat (Uint32 bo bs)"
  let ?w = "width (Type prop)"
  have w: "SizeOfType (Type prop) = int ?w"
    using assms(2)
    by (auto simp: recognized_def Types_def OldTypes_def width_def SizeOfType_def SizeOfTypeTable_def)
  obtain l where l: "makeBuffer (int ?N * SizeOfType (Type prop)) = Inr l" "wfBuffer l"
    "bufferBytes l = replicate (?N * ?w) (CHR 0x00)"
    using makeBuffer_nonneg [of "int ?N * SizeOfType (Type prop)"] w
    by (auto simp: nat_mult_distrib)
  obtain l' where l': "binaryList r1 (Type prop) l 0 (int ?N)
                         = Inr (l', snd (readItems r1 ?w ?N))"
    "bufferBytes l' = bufferBytes l @ fst (readItems r1 ?w ?N)"
    using binaryList_readItems [OF assms(2) l(2), of 0 "int ?N" r1] by auto
  show ?thesis
    using assms l l' by (simp add: binaryProp_def setData_def Let_def)
qed

lemma writeValue_zero: "writeValue k bs = replicate k (CHR 0x00)"
  by (simp add: writeValue_def makeBytes_def NewBuffer_def Buffer_Write_def contents_def Let_def)

lemma zeros4: "replicate 4 (CHR 0x00) = [CHR 0x00, CHR 0x00, CHR 0x00, CHR 0x00]"
  by (simp add: numeral_eq_Suc)

subsection \<open>Row buffers stay aligned\<close>

lemma list_all_update:
  assumes "list_all P xs" and "P v"
  shows "list_all P (xs[i := v])"
  using assms set_update_subset_insert [of xs i v]
  by (auto simp: list_all_iff)

lemma setData_aligned:
  assumes "rowsAligned prop" and "setData prop i row = Inr prop'"
    and "IsList prop \<and> recognized (Type prop) \<longrightarrow> bufferAligned (width (Type prop)) row"
  shows "rowsAligned prop'"
  using assms
  by (auto simp: setData_def rowsAligned_def list_all_update split: if_splits)

lemma makeAllData_aligned:
  assumes "makeAllData n props = Inr props'"
  shows "list_all rowsAligned props'"
  using assms
proof (induction props arbitrary: props')
  case Nil
  then show ?case by simp
next
  case (Cons q props)
  then show ?case
    by (auto simp: makeData_def rowsAligned_def bufferAligned_def list_all_iff
        split: sum.splits if_splits)
qed

lemma recognized_width:
  assumes "recognized t"
  shows "SizeOfType t = int (width t)" and "0 < width t"
  using assms
  by (auto simp: recognized_def Types_def OldTypes_def width_def SizeOfType_def SizeOfTypeTable_def)

lemma binaryProp_aligned:
  assumes "rowsAligned prop" and "binaryProp order r prop i = Inr (prop', r')"
  shows "rowsAligned prop'"
proof (cases "IsList prop \<and> recognized (Type prop)")
  case False
  from assms(2) obtain row where "setData prop i row = Inr prop'"
    by (auto simp: binaryProp_def Let_def split: sum.splits prod.splits option.splits if_splits)
  with assms(1) False show ?thesis
    by (auto elim!: setData_aligned)
next
  case True
  then have isList: "IsList prop" and rec: "recognized (Type prop)"
    by simp_all
  from assms(2) isList obtain bs r1 bo l l' r2 where
    rd: "ReadFull r 4 = Inr (bs, r1)" and "order = Some bo"
    and mk: "makeBuffer (int (unat (Uint32 bo bs)) * SizeOfType (Type prop)) = Inr l"
    and bl: "binaryList r1 (Type prop) l 0 (int (unat (Uint32 bo bs))) = Inr (l', r2)"
    and sd: "setData prop i (Some (bufferBytes l')) = Inr prop'"
    by (auto simp: binaryProp_def Let_def split: sum.splits prod.splits option.splits)
  let ?N = "unat (Uint32 bo bs)"
  let ?w = "width (Type prop)"
  from mk recognized_width(1) [OF rec] have l: "wfBuffer l" "length (bufferBytes l) = ?N * ?w"
    by (auto simp: makeBuffer_def wfBuffer_def bufferBytes_def nat_mult_distrib split: if_splits)
  from binaryList_readItems [OF rec l(1), of 0 "int ?N" r1] bl
  have "bufferBytes l' = bufferBytes l @ fst (readItems r1 ?w ?N)"
    by auto
  with l have "length (bufferBytes l') = ?N * ?w + ?N * ?w"
    by (simp add: readItems_length)
  then have "bufferAligned ?w (Some (bufferBytes l'))"
    by (simp add: bufferAligned_def)
  with assms(1) sd show ?thesis
    by (auto elim!: setData_aligned)
qed

lemma binaryProps_aligned:
  assumes "list_all rowsAligned props" and "binaryProps order r props i = Inr (props', r')"
  shows "list_all rowsAligned props'"
  using assms
proof (induction props arbitrary: r props' r')
  case Nil
  then show ?case by simp
next
  case (Cons q props)
  from Cons.prems(2) obtain prop1 r1 props1 where
    1: "binaryProp order r q i = Inr (prop1, r1)"
    and 2: "binaryProps order r1 props i = Inr (props1, r')"
    and 3: "props' = prop1 # props1"
    by (auto split: sum.splits prod.splits)
  from Cons.prems(1) 1 have "rowsAligned prop1"
    by (auto elim: binaryProp_aligned)
  moreover from Cons.prems(1) 2 have "list_all rowsAligned props1"
    by (auto intro: Cons.IH)
  ultimately show ?case
    using 3 by simp
qed

lemma binaryRows_aligned:
  assumes "list_all rowsAligned props" and "binaryRows order r props i n = Inr (props', r')"
  shows "list_all rowsAligned props'"
  using assms
proof (induction "nat (n - i)" arbitrary: r props i)
  case 0
  then have "\<not> i < n"
    by simp
  with "0.prems" show ?case
    by (subst (asm) binaryRows.simps) simp
next
  case (Suc k)
  then have lt: "i < n"
    by simp
  with Suc.prems(2) obtain props1 r1 where
    1: "binaryProps order r props i = Inr (props1, r1)"
    and 2: "binaryRows order r1 props1 (i + 1) n = Inr (props', r')"
    by (subst (asm) binaryRows.simps) (auto split: sum.splits prod.splits)
  from Suc.prems(1) 1 have "list_all rowsAligned props1"
    by (rule binaryProps_aligned)
  moreover from Suc.hyps(2) have "k = nat (n - (i + 1))"
    by simp
  ultimately show ?case
    using 2 Suc.hyps(1) by blast
qed

lemma binaryElems_aligned:
  assumes "binaryElems order r elems = Inr (elems', r')"
  shows "list_all elemAligned elems'"
  using assms
proof (induction elems arbitrary: r elems' r')
  case Nil
  then show ?case by simp
next
  case (Cons elem elems)
  from Cons.prems obtain props props1 r1 elems1 where
    1: "makeAllData (Size elem) (Properties elem) = Inr props"
    and 2: "binaryRows order r props 0 (Size elem) = Inr (props1, r1)"
    and 3: "binaryElems order r1 elems = Inr (elems1, r')"
    and 4: "elems' = elem\<lparr>Properties := props1\<rparr> # elems1"
    by (auto split: sum.splits prod.splits)
  from 1 have "list_all rowsAligned props"
    by (rule makeAllData_aligned)
  with 2 have "list_all rowsAligned props1"
    by (auto elim: binaryRows_aligned)
  then have "elemAligned (elem\<lparr>Properties := props1\<rparr>)"
    by (simp add: elemAligned_def)
  moreover from 3 have "list_all elemAligned elems1"
    by (rule Cons.IH)
  ultimately show ?case
    using 4 by simp
qed

lemma parseBinary_aligned:
  assumes "parseBinary p = Inr p'"
  shows "list_all elemAligned (Elements p')"
  using assms
  by (auto simp: parseBinary_def dest: binaryElems_aligned split: sum.splits prod.splits)

lemma toType_recognized_length:
  assumes "recognized t" and "toType pf d t = Inr b"
  shows "\<exists>bs. b = Some bs \<and> length bs = width t"
proof -
  from assms(1) have "t = ''int8'' \<or> t = ''int16'' \<or> t = ''int32'' \<or> t = ''uint8'' \<or>
      t = ''uint16'' \<or> t = ''uint32'' \<or> t = ''float32'' \<or> t = ''float64'' \<or>
      t = ''char'' \<or> t = ''short'' \<or> t = ''int'' \<or> t = ''uchar'' \<or>
      t = ''ushort'' \<or> t = ''uint'' \<or> t = ''float'' \<or> t = ''double''"
    by (auto simp: recognized_def Types_def OldTypes_def)
  then show ?thesis
    using assms(2)
    by (elim disjE;
        simp add: toType_def Types_def OldTypes_def writeValue_zero width_def
          SizeOfType_def SizeOfTypeTable_def split: sum.splits;
        auto)
qed

lemma asciiList_length:
  assumes "recognized t" and "wfBuffer l" and "asciiList pf words cw t l j n = Inr (l', cw')"
  shows "wfBuffer l' \<and> length (bufferBytes l') = length (bufferBytes l) + nat (n - j) * width t"
  using assms(2,3)
proof (induction "nat (n - j)" arbitrary: cw l j)
  case 0
  then have "\<not> j < n"
    by simp
  with "0.prems" "0.hyps" show ?case
    by (subst (asm) asciiList.simps) simp
next
  case (Suc k)
  then have lt: "j < n"
    by simp
  with Suc.prems(2) obtain w b where
    1: "index words cw = Inr w" and 2: "toType pf w t = Inr b"
    and 3: "asciiList pf words (cw + 1) t (appendBytes l (bytesOf b)) (j + 1) n = Inr (l', cw')"
    by (subst (asm) asciiList.simps) (auto split: sum.splits)
  from toType_recognized_length [OF assms(1) 2] obtain bs where bs: "b = Some bs" "length bs = width t"
    by auto
  have wf: "wfBuffer (appendBytes l (bytesOf b))"
    using Suc.prems(1) by (rule appendBytes_wf)
  have k: "k = nat (n - (j + 1))"
    using Suc.hyps(2) by simp
  from Suc.hyps(1) [OF k wf 3]
  have "wfBuffer l'"
    and "length (bufferBytes l') = length (bufferBytes (appendBytes l (bytesOf b))) + nat (n - (j + 1)) * width t"
    by simp_all
  moreover have "nat (n - j) = Suc (nat (n - (j + 1)))"
    using lt by simp
  ultimately show ?case
    using bs Suc.prems(1) by (simp add: appendBytes_bytes bytesOf_def)
qed

lemma asciiProps_aligned:
  assumes "list_all rowsAligned props" and "asciiProps pf words cw props i = Inr props'"
  shows "list_all rowsAligned props'"
  using assms
proof (induction props arbitrary: cw props')
  case Nil
  then show ?case by simp
next
  case (Cons q props)
  show ?case
  proof (cases "IsList q")
    case False
    with Cons.prems(2) obtain b prop1 props1 where
      1: "setData q i b = Inr prop1"
      and 2: "asciiProps pf words cw props i = Inr props1"
      and 3: "props' = prop1 # props1"
      by (auto split: sum.splits)
    from Cons.prems(1) 1 False have "rowsAligned prop1"
      by (auto elim!: setData_aligned)
    moreover from Cons.prems(1) 2 have "list_all rowsAligned props1"
      by (auto intro: Cons.IH)
    ultimately show ?thesis
      using 3 by simp
  next
    case True
    with Cons.prems(2) obtain numSize l l' cw' prop1 props1 where
      mk: "makeBuffer (numSize * SizeOfType (Type q)) = Inr l"
      and al: "asciiList pf words (cw + 1) (Type q) l 0 numSize = Inr (l', cw')"
      and 1: "setData q i (Some (bufferBytes l')) = Inr prop1"
      and 2: "asciiProps pf words cw' props i = Inr props1"
      and 3: "props' = prop1 # props1"
      by (auto split: sum.splits prod.splits)
    have "recognized (Type q) \<longrightarrow> bufferAligned (width (Type q)) (Some (bufferBytes l'))"
    proof
      assume rec: "recognized (Type q)"
      let ?w = "width (Type q)"
      have "0 \<le> numSize"
      proof (rule ccontr)
        assume "\<not> 0 \<le> numSize"
        then have "numSize * int ?w < 0"
          using recognized_width(2) [OF rec] by (simp add: mult_less_0_iff)
        with mk show False
          by (simp add: makeBuffer_def recognized_width(1) [OF rec])
      qed
      moreover from mk recognized_width(1) [OF rec]
      have "wfBuffer l" "length (bufferBytes l) = nat (numSize * int ?w)"
        by (auto simp: makeBuffer_def wfBuffer_def bufferBytes_def split: if_splits)
      ultimately have l: "wfBuffer l" "length (bufferBytes l) = nat (numSize * int ?w)"
        "0 \<le> numSize"
        by simp_all
      from asciiList_length [OF rec l(1) al] l
      have "length (bufferBytes l') = nat numSize * ?w + nat numSize * ?w"
        by (simp add: nat_mult_distrib)
      then show "bufferAligned ?w (Some (bufferBytes l'))"
        by (simp add: bufferAligned_def)
    qed
    with Cons.prems(1) 1 have "rowsAligned prop1"
      by (auto elim!: setData_aligned)
    moreover from Cons.prems(1) 2 have "list_all rowsAligned props1"
      by (auto intro: Cons.IH)
    ultimately show ?thesis
      using 3 by simp
  qed
qed

lemma asciiRows_aligned:
  assumes "list_all rowsAligned props" and "asciiRows pf r props i n = Inr (props', r')"
  shows "list_all rowsAligned props'"
  using assms
proof (induction "nat (n - i)" arbitrary: r props i)
  case 0
  then have "\<not> i < n"
    by simp
  with "0.prems" show ?case
    by (subst (asm) asciiRows.simps) simp
next
  case (Suc k)
  then have lt: "i < n"
    by simp
  with Suc.prems(2) obtain line r1 props1 where
    1: "asciiRow pf line props i = Inr props1"
    and 2: "asciiRows pf r1 props1 (i + 1) n = Inr (props', r')"
    by (subst (asm) asciiRows.simps) (auto split: sum.splits prod.splits)
  from Suc.prems(1) 1 have "list_all rowsAligned props1"
    by (auto simp: asciiRow_def Let_def elim: asciiProps_aligned split: if_splits)
  moreover from Suc.hyps(2) have "k = nat (n - (i + 1))"
    by simp
  ultimately show ?case
    using 2 Suc.hyps(1) by blast
qed

lemma asciiElems_aligned:
  assumes "asciiElems pf r elems = Inr (elems', r')"
  shows "list_all elemAligned elems'"
  using assms
proof (induction elems arbitrary: r elems' r')
  case Nil
  then show ?case by simp
next
  case (Cons elem elems)
  from Cons.prems obtain props props1 r1 elems1 where
    1: "makeAllData (Size elem) (Properties elem) = Inr props"
    and 2: "asciiRows pf r props 0 (Size elem) = Inr (props1, r1)"
    and 3: "asciiElems pf r1 elems = Inr (elems1, r')"
    and 4: "elems' = elem\<lparr>Properties := props1\<rparr> # elems1"
    by (auto split: sum.splits prod.splits)
  from 1 have "list_all rowsAligned props"
    by (rule makeAllData_aligned)
  with 2 have "list_all rowsAligned props1"
    by (auto elim: asciiRows_aligned)
  then have "elemAligned (elem\<lparr>Properties := props1\<rparr>)"
    by (simp add: elemAligned_def)
  moreover from 3 have "list_all elemAligned elems1"
    by (rule Cons.IH)
  ultimately show ?case
    using 4 by simp
qed

lemma parseASCII_aligned:
  assumes "parseASCII pf p = Inr p'"
  shows "list_all elemAligned (Elements p')"
  using assms
  by (auto simp: parseASCII_def dest: asciiElems_aligned split: sum.splits prod.splits)

lemma Load_aligned:
  assumes "Load pf fs p name = Inr p'"
  shows "list_all elemAligned (Elements p')"
proof -
  from assms obtain q where
    "parseBinary (q\<lparr>byteOrder := Some BigEndian\<rparr>) = Inr p' \<or>
     parseBinary (q\<lparr>byteOrder := Some LittleEndian\<rparr>) = Inr p' \<or> parseASCII pf q = Inr p'"
    by (auto simp: Load_def parseBinaryBigEndian_def parseBinaryLittleEndian_def
        split: option.splits sum.splits if_splits)
  then show ?thesis
    using parseASCII_aligned parseBinary_aligned by blast
qed

subsection \<open>Three documents\<close>

lemmas token_eval = FindAll.simps wordMatcher_def numMatcher_def Plus_def isWord_def isDot_def
  isSign_def isDigit_def

lemmas line_eval = readLine_first_graphic readLine_buffered_graphic isGraphic_def newline_def

lemma tokens_format_ascii: "FindAll wordMatcher ''format ascii 1.0'' = [''format'', ''ascii'', ''1.0'']"
  by (simp add: token_eval)

lemma tokens_format_little:
  "FindAll wordMatcher ''format binary_little_endian 1.0'' = [''format'', ''binary_little_endian'', ''1.0'']"
  by (simp add: token_eval)

lemma tokens_element_face: "FindAll wordMatcher ''element face 1'' = [''element'', ''face'', ''1'']"
  by (simp add: token_eval)

lemma tokens_element_vertex: "FindAll wordMatcher ''element vertex 1'' = [''element'', ''vertex'', ''1'']"
  by (simp add: token_eval)

lemma tokens_property_ids:
  "FindAll wordMatcher ''property list uint8 int32 ids'' = [''property'', ''list'', ''uint8'', ''int32'', ''ids'']"
  by (simp add: token_eval)

lemma tokens_property_x: "FindAll wordMatcher ''property float32 x'' = [''property'', ''float32'', ''x'']"
  by (simp add: token_eval)

lemma tokens_property_y: "FindAll wordMatcher ''property float32 y'' = [''property'', ''float32'', ''y'']"
  by (simp add: token_eval)

lemma tokens_property_z: "FindAll wordMatcher ''property float32 z'' = [''property'', ''float32'', ''z'']"
  by (simp add: token_eval)

lemma tokens_end_header: "FindAll wordMatcher ''end_header'' = [''end_header'']"
  by (simp add: token_eval)

lemma tokens_body: "FindAll numMatcher ''1.0 2.0 3.0'' = [''1.0'', ''2.0'', ''3.0'']"
  by (simp add: token_eval)

lemma ParseInt_1: "ParseInt ''1'' 0 32 = Inr 1"
  by (simp add: ParseInt_def ParseUint_def isDigit_def isLetter_def digitVal_def lower_def maxUint64_def)

definition listBody :: string where
  "listBody = [CHR 0x03, CHR 0x00, CHR 0x00, CHR 0x00, CHR 0x01, CHR 0x00, CHR 0x00, CHR 0x00,
               CHR 0x02, CHR 0x00, CHR 0x00, CHR 0x00, CHR 0x03, CHR 0x00, CHR 0x00, CHR 0x00]"

definition listDocument :: string where
  "listDocument =
     textLine ''ply'' (textLine ''format binary_little_endian 1.0'' (textLine ''element face 1''
       (textLine ''property list uint8 int32 ids'' (textLine ''end_header'' listBody))))"

definition listSchema :: PLY where
  "listSchema =
     \<lparr>Elements = [\<lparr>ElemName = ''face'',
                   Properties = [\<lparr>Name = ''ids'', IsList = True, Data = [], Type = ''int32'',
                                  ListSizeType = ''uint8'', pos = 0\<rparr>],
                   Size = 1\<rparr>],
      FileType = 1, ObjInfoItems = None, currentLine = 5, filename = ''a.ply'',
      reader = \<lparr>buffered = listBody, source = []\<rparr>, byteOrder = None\<rparr>"

lemma listDocument_header:
  "parseHeader (newPLY\<lparr>filename := ''a.ply'', reader := NewReader listDocument\<rparr>) = Inr listSchema"
proof -
  have "length listDocument \<le> bufSize"
    by (simp add: listDocument_def textLine_def listBody_def bufSize_def)
  then show ?thesis
    unfolding listDocument_def listSchema_def
    apply (simp add: parseHeader_def newPLY_def line_eval tokens_format_little BinaryLittleEndian_def)
    apply (subst headerLoop.simps, simp add: line_eval tokens_element_face ParseInt_1)
    apply (subst headerLoop.simps, simp add: line_eval tokens_property_ids propertyLine_def newProperty_def)
    apply (subst headerLoop.simps, simp add: line_eval tokens_end_header)
    done
qed

lemma listBody_count:
  "ReadFull \<lparr>buffered = listBody, source = []\<rparr> 4
     = Inr ([CHR 0x03, CHR 0x00, CHR 0x00, CHR 0x00], \<lparr>buffered = drop 4 listBody, source = []\<rparr>)"
  by (simp add: ReadFull_def ReadAtLeast.simps Read_def listBody_def)

lemma listBody_items:
  "readItems \<lparr>buffered = drop 4 listBody, source = []\<rparr> 4 3
     = (drop 4 listBody, \<lparr>buffered = [], source = []\<rparr>)"
  by (simp add: eval_nat_numeral readInto_def Read_def bufSize_def listBody_def)

lemma listBody_three: "unat (Uint32 LittleEndian [CHR 0x03, CHR 0x00, CHR 0x00, CHR 0x00]) = 3"
  by (simp add: Uint32_def leNat_def)

lemma listDocument_body:
  "map_sum id rowBuffers (parseBinaryLittleEndian listSchema)
     = Inr [[[Some (replicate 12 (CHR 0x00) @ drop 4 listBody)]]]"
proof -
  let ?ids = "\<lparr>Name = ''ids'', IsList = True, Data = [None], Type = ''int32'',
                 ListSizeType = ''uint8'', pos = 0\<rparr>"
  have rec: "recognized (Type ?ids)"
    by (simp add: recognized_def Types_def)
  have w: "width ''int32'' = 4"
    by (simp add: width_def SizeOfType_def SizeOfTypeTable_def)
  have "binaryProp (Some LittleEndian) \<lparr>buffered = listBody, source = []\<rparr> ?ids 0
          = Inr (?ids\<lparr>Data := [Some (replicate 12 (CHR 0x00) @ drop 4 listBody)]\<rparr>,
                 \<lparr>buffered = [], source = []\<rparr>)"
    using binaryProp_list [OF _ rec _ _ listBody_count, of 0 LittleEndian]
    by (simp add: listBody_three listBody_items w)
  then show ?thesis
    unfolding listSchema_def
    apply (simp add: parseBinaryLittleEndian_def parseBinary_def makeData_def)
    apply (subst binaryRows.simps, simp)
    apply (subst binaryRows.simps, simp add: rowBuffers_def)
    done
qed


lemma listSchema_FileType: "FileType listSchema = 1"
  by (simp add: listSchema_def)

definition truncatedDocument :: string where
  "truncatedDocument =
     textLine ''ply'' (textLine ''format binary_little_endian 1.0'' (textLine ''element vertex 1''
       (textLine ''property float32 x'' (textLine ''end_header'' []))))"

definition truncatedSchema :: PLY where
  "truncatedSchema =
     \<lparr>Elements = [\<lparr>ElemName = ''vertex'',
                   Properties = [\<lparr>Name = ''x'', IsList = False, Data = [], Type = ''float32'',
                                  ListSizeType = [], pos = 0\<rparr>],
                   Size = 1\<rparr>],
      FileType = 1, ObjInfoItems = None, currentLine = 5, filename = ''a.ply'',
      reader = \<lparr>buffered = [], source = []\<rparr>, byteOrder = None\<rparr>"

lemma truncatedDocument_header:
  "parseHeader (newPLY\<lparr>filename := ''a.ply'', reader := NewReader truncatedDocument\<rparr>)
     = Inr truncatedSchema"
proof -
  have "length truncatedDocument \<le> bufSize"
    by (simp add: truncatedDocument_def textLine_def bufSize_def)
  then show ?thesis
    unfolding truncatedDocument_def truncatedSchema_def
    apply (simp add: parseHeader_def newPLY_def line_eval tokens_format_little BinaryLittleEndian_def)
    apply (subst headerLoop.simps, simp add: line_eval tokens_element_vertex ParseInt_1)
    apply (subst headerLoop.simps, simp add: line_eval tokens_property_x propertyLine_def newProperty_def)
    apply (subst headerLoop.simps, simp add: line_eval tokens_end_header)
    done
qed

lemma truncatedDocument_body:
  "map_sum id rowBuffers (parseBinaryLittleEndian truncatedSchema)
     = Inr [[[Some (replicate 4 (CHR 0x00))]]]"
proof -
  have "recognized ''float32''"
    by (simp add: recognized_def Types_def)
  then have "toBType \<lparr>buffered = [], source = []\<rparr> ''float32''
               = ((Some (replicate 4 (CHR 0x00)), None), \<lparr>buffered = [], source = []\<rparr>)"
    by (simp add: toBType_recognized width_def SizeOfType_def SizeOfTypeTable_def readInto_def Read_def)
  then show ?thesis
    unfolding truncatedSchema_def
    apply (simp add: parseBinaryLittleEndian_def parseBinary_def makeData_def)
    apply (subst binaryRows.simps, simp add: binaryProp_def setData_def)
    apply (subst binaryRows.simps, simp add: rowBuffers_def)
    done
qed

lemma truncatedSchema_FileType: "FileType truncatedSchema = 1"
  by (simp add: truncatedSchema_def)

definition asciiDocument :: string where
  "asciiDocument =
     textLine ''ply'' (textLine ''format ascii 1.0'' (textLine ''element vertex 1''
       (textLine ''property float32 x'' (textLine ''property float32 y''
         (textLine ''property float32 z'' (textLine ''end_header'' (textLine ''1.0 2.0 3.0'' [])))))))"

definition asciiSchema :: PLY where
  "asciiSchema =
     \<lparr>Elements = [\<lparr>ElemName = ''vertex'',
                   Properties = [\<lparr>Name = ''x'', IsList = False, Data = [], Type = ''float32'',
                                  ListSizeType = [], pos = 0\<rparr>,
                                 \<lparr>Name = ''y'', IsList = False, Data = [], Type = ''float32'',
                                  ListSizeType = [], pos = 1\<rparr>,
                                 \<lparr>Name = ''z'', IsList = False, Data = [], Type = ''float32'',
                                  ListSizeType = [], pos = 2\<rparr>],
                   Size = 1\<rparr>],
      FileType = 2, ObjInfoItems = None, currentLine = 7, filename = ''a.ply'',
      reader = \<lparr>buffered = textLine ''1.0 2.0 3.0'' [], source = []\<rparr>, byteOrder = None\<rparr>"

lemma asciiDocument_header:
  "parseHeader (newPLY\<lparr>filename := ''a.ply'', reader := NewReader asciiDocument\<rparr>) = Inr asciiSchema"
proof -
  have "length asciiDocument \<le> bufSize"
    by (simp add: asciiDocument_def textLine_def bufSize_def)
  then show ?thesis
    unfolding asciiDocument_def asciiSchema_def
    apply (simp add: parseHeader_def newPLY_def line_eval tokens_format_ascii Ascii_def)
    apply (subst headerLoop.simps, simp add: line_eval tokens_element_vertex ParseInt_1)
    apply (subst headerLoop.simps, simp add: line_eval tokens_property_x propertyLine_def newProperty_def)
    apply (subst headerLoop.simps, simp add: line_eval tokens_property_y propertyLine_def newProperty_def)
    apply (subst headerLoop.simps, simp add: line_eval tokens_property_z propertyLine_def newProperty_def)
    apply (subst headerLoop.simps, simp add: line_eval tokens_end_header)
    done
qed

lemma toType_float32:
  "toType pf w ''float32'' =
     (case pf w 32 of Inl e \<Rightarrow> Inl e
      | Inr f \<Rightarrow> Inr (Some [CHR 0x00, CHR 0x00, CHR 0x00, CHR 0x00]))"
  by (simp add: toType_def Types_def OldTypes_def writeValue_zero zeros4 split: sum.splits)

definition zeroVertex :: PLY where
  "zeroVertex =
     \<lparr>Elements = [\<lparr>ElemName = ''vertex'',
                   Properties = [\<lparr>Name = ''x'', IsList = False, Data = [Some [CHR 0x00, CHR 0x00, CHR 0x00, CHR 0x00]],
                                  Type = ''float32'', ListSizeType = [], pos = 0\<rparr>,
                                 \<lparr>Name = ''y'', IsList = False, Data = [Some [CHR 0x00, CHR 0x00, CHR 0x00, CHR 0x00]],
                                  Type = ''float32'', ListSizeType = [], pos = 1\<rparr>,
                                 \<lparr>Name = ''z'', IsList = False, Data = [Some [CHR 0x00, CHR 0x00, CHR 0x00, CHR 0x00]],
                                  Type = ''float32'', ListSizeType = [], pos = 2\<rparr>],
                   Size = 1\<rparr>],
      FileType = 2, ObjInfoItems = None, currentLine = 7, filename = ''a.ply'',
      reader = \<lparr>buffered = [], source = []\<rparr>, byteOrder = Some LittleEndian\<rparr>"

lemma asciiDocument_body:
  "parseASCII pf asciiSchema = (case pf ''1.0'' 32 of Inl e \<Rightarrow> Inl e | Inr f \<Rightarrow> Inr zeroVertex)"
proof (cases "pf ''1.0'' 32")
  case (Inl e)
  then show ?thesis
    unfolding asciiSchema_def
    apply (simp add: parseASCII_def makeData_def)
    apply (subst asciiRows.simps, simp add: line_eval asciiRow_def tokens_body toType_float32)
    done
next
  case (Inr f)
  then show ?thesis
    unfolding asciiSchema_def zeroVertex_def
    apply (simp add: parseASCII_def makeData_def)
    apply (subst asciiRows.simps, simp add: line_eval asciiRow_def tokens_body toType_float32 setData_def)
    apply (subst asciiRows.simps, simp)
    done
qed

lemma zeroVertex_columns: "ReadVertices zeroVertex = Inr (Some [[0], [0], [0]])"
  by (simp add: ReadVertices_def zeroVertex_def vertexColumn_def bytesOf_def Uint32_def leNat_def)

lemma asciiSchema_FileType: "FileType asciiSchema = 2"
  by (simp add: asciiSchema_def)

definition listRow :: string where
  "listRow = replicate 12 (CHR 0x00) @ drop 4 listBody"

definition listIds :: Property where
  "listIds = \<lparr>Name = ''ids'', IsList = True, Data = [Some listRow], Type = ''int32'',
              ListSizeType = ''uint8'', pos = 0\<rparr>"

definition listFace :: Element where
  "listFace = \<lparr>ElemName = ''face'', Properties = [listIds], Size = 1\<rparr>"

definition listLoaded :: PLY where
  "listLoaded = listSchema\<lparr>Elements := [listFace], reader := \<lparr>buffered = [], source = []\<rparr>,
                           byteOrder := Some LittleEndian\<rparr>"

lemma listSchema_loaded: "parseBinaryLittleEndian listSchema = Inr listLoaded"
proof -
  let ?ids = "\<lparr>Name = ''ids'', IsList = True, Data = [None], Type = ''int32'',
                ListSizeType = ''uint8'', pos = 0\<rparr>"
  have rec: "recognized (Type ?ids)"
    by (simp add: recognized_def Types_def)
  have w: "width ''int32'' = 4"
    by (simp add: width_def SizeOfType_def SizeOfTypeTable_def)
  have "binaryProp (Some LittleEndian) \<lparr>buffered = listBody, source = []\<rparr> ?ids 0
          = Inr (?ids\<lparr>Data := [Some (replicate 12 (CHR 0x00) @ drop 4 listBody)]\<rparr>,
                 \<lparr>buffered = [], source = []\<rparr>)"
    using binaryProp_list [OF _ rec _ _ listBody_count, of 0 LittleEndian]
    by (simp add: listBody_three listBody_items w)
  then show ?thesis
    unfolding listSchema_def listLoaded_def listFace_def listIds_def listRow_def
    apply (simp add: parseBinaryLittleEndian_def parseBinary_def makeData_def)
    apply (subst binaryRows.simps, simp)
    apply (subst binaryRows.simps, simp)
    done
qed

lemma listDocument_loaded:
  "Load pf (onlyFile ''a.ply'' listDocument) newPLY ''a.ply'' = Inr listLoaded"
  by (simp add: Load_def onlyFile_def listDocument_header listSchema_FileType BinaryBigEndian_def
      BinaryLittleEndian_def listSchema_loaded)

subsection \<open>What the header tokenizer yields\<close>

declare backtrack.simps(4) [simp del]

lemma Star_unfold:
  "backtrack (Star a) s =
     concat (map (\<lambda>x. if length x < length s then backtrack (Star a) x else []) (backtrack a s)) @ [s]"
  by (rule backtrack.simps)

lemma Atom_fails:
  assumes "s = [] \<or> \<not> P (hd s)"
  shows "backtrack (Atom P) s = []"
  using assms by (cases s) auto

lemma Star_fails:
  assumes "s = [] \<or> \<not> P (hd s)"
  shows "backtrack (Star (Atom P)) s = [s]"
proof -
  have "backtrack (Atom P) s = []"
    using assms by (rule Atom_fails)
  then show ?thesis
    by (subst Star_unfold) (simp only:, simp)
qed

lemma Plus_fails:
  assumes "s = [] \<or> \<not> P (hd s)"
  shows "backtrack (Plus (Atom P)) s = []"
proof -
  have "backtrack (Atom P) s = []"
    using assms by (rule Atom_fails)
  then show ?thesis
    by (simp only: Plus_def backtrack.simps(2), simp)
qed

lemma Star_greedy:
  assumes "list_all P w" and "rest = [] \<or> \<not> P (hd rest)"
  shows "\<exists>t. backtrack (Star (Atom P)) (w @ rest) = rest # t"
  using assms(1)
proof (induction w)
  case Nil
  show ?case
    by (simp add: Star_fails [of rest P, OF assms(2)])
next
  case (Cons c w)
  then obtain t where t: "backtrack (Star (Atom P)) (w @ rest) = rest # t"
    by auto
  from Cons.prems have "backtrack (Atom P) ((c # w) @ rest) = [w @ rest]"
    by simp
  then have "backtrack (Star (Atom P)) ((c # w) @ rest) = (rest # t) @ [(c # w) @ rest]"
    by (subst Star_unfold) (simp add: t)
  then show ?case
    by simp
qed

lemma Plus_greedy:
  assumes "w \<noteq> []" and "list_all P w" and "rest = [] \<or> \<not> P (hd rest)"
  shows "\<exists>t. backtrack (Plus (Atom P)) (w @ rest) = rest # t"
proof -
  from assms(1) obtain c w' where w: "w = c # w'"
    by (cases w) auto
  with assms(2) have "list_all P w'" and c: "P c"
    by simp_all
  then obtain t where "backtrack (Star (Atom P)) (w' @ rest) = rest # t"
    using Star_greedy [of P w' rest] assms(3) by blast
  with w c show ?thesis
    by (simp add: Plus_def)
qed

definition consumesDigits :: "re \<Rightarrow> bool" where
  "consumesDigits r =
     (\<forall>s x. x \<in> set (backtrack r s) \<longrightarrow> (\<exists>d. s = d @ x \<and> list_all isDigit d))"

lemma consumesDigits_Atom: "consumesDigits (Atom isDigit)"
  by (auto simp: consumesDigits_def split: list.splits if_splits)

lemma consumesDigits_Seq:
  assumes "consumesDigits a" and "consumesDigits b"
  shows "consumesDigits (Seq a b)"
  unfolding consumesDigits_def
proof (intro allI impI)
  fix s x
  assume "x \<in> set (backtrack (Seq a b) s)"
  then obtain y where y: "y \<in> set (backtrack a s)" "x \<in> set (backtrack b y)"
    by auto
  with assms obtain d1 d2 where "s = d1 @ y" "list_all isDigit d1" "y = d2 @ x" "list_all isDigit d2"
    unfolding consumesDigits_def by blast
  then have "s = (d1 @ d2) @ x \<and> list_all isDigit (d1 @ d2)"
    by simp
  then show "\<exists>d. s = d @ x \<and> list_all isDigit d"
    by blast
qed

lemma consumesDigits_Star:
  assumes "consumesDigits a"
  shows "consumesDigits (Star a)"
  unfolding consumesDigits_def
proof (intro allI impI)
  fix s x
  assume "x \<in> set (backtrack (Star a) s)"
  then show "\<exists>d. s = d @ x \<and> list_all isDigit d"
  proof (induction "length s" arbitrary: s rule: less_induct)
    case less
    from less.prems have "x \<in> set (concat (map (\<lambda>x. if length x < length s
                                 then backtrack (Star a) x else []) (backtrack a s)) @ [s])"
      by (subst (asm) Star_unfold)
    then have "x = s \<or> (\<exists>y \<in> set (backtrack a s). length y < length s \<and>
                                      x \<in> set (backtrack (Star a) y))"
      by (auto split: if_splits)
    then show ?case
    proof
      assume "x = s"
      then have "s = [] @ x \<and> list_all isDigit []"
        by simp
      then show ?thesis
        by blast
    next
      assume "\<exists>y \<in> set (backtrack a s). length y < length s \<and> x \<in> set (backtrack (Star a) y)"
      then obtain y where y: "y \<in> set (backtrack a s)" "length y < length s"
        "x \<in> set (backtrack (Star a) y)"
        by auto
      from less.hyps [OF y(2) y(3)] obtain d2 where "y = d2 @ x" "list_all isDigit d2"
        by auto
      moreover from assms y(1) obtain d1 where "s = d1 @ y" "list_all isDigit d1"
        unfolding consumesDigits_def by blast
      ultimately have "s = (d1 @ d2) @ x \<and> list_all isDigit (d1 @ d2)"
        by simp
      then show ?thesis
        by blast
    qed
  qed
qed

lemma concat_first:
  assumes "\<forall>x \<in> set xs. f x = [] \<or> (\<exists>t. f x = a # t)" and "\<exists>x \<in> set xs. f x \<noteq> []"
  shows "\<exists>t. concat (map f xs) = a # t"
  using assms
proof (induction xs)
  case Nil
  then show ?case by simp
next
  case (Cons x xs)
  show ?case
  proof (cases "f x = []")
    case True
    with Cons show ?thesis
      by auto
  next
    case False
    with Cons.prems(1) obtain t where "f x = a # t"
      by auto
    then show ?thesis
      by simp
  qed
qed

lemma Star_of_failing:
  assumes "backtrack a s = []"
  shows "backtrack (Star a) s = [s]"
  by (subst Star_unfold) (simp only: assms, simp)

lemma isDigit_isWord: "isDigit c \<Longrightarrow> isWord c"
  by (simp add: isWord_def)

lemma isWord_not_isDot: "isWord c \<Longrightarrow> \<not> isDot c"
  by (auto simp: isWord_def isDigit_def isDot_def)

lemma space_not_word: "\<not> isWord (CHR '' '')" "\<not> isDigit (CHR '' '')" "\<not> isDot (CHR '' '')"
  by (simp_all add: isWord_def isDigit_def isDot_def)

lemma wordMatcher_ident:
  assumes "isIdent w" and "rest = [] \<or> \<not> isWord (hd rest)"
  shows "\<exists>t. backtrack wordMatcher (w @ rest) = rest # t"
proof -
  let ?s = "w @ rest"
  from assms(1) have w: "w \<noteq> []" "list_all isWord w" "\<not> isDigit (hd w)"
    by (simp_all add: isIdent_def)
  then have hd: "hd ?s = hd w" "isWord (hd w)"
    by (cases w; simp)+
  then have nd: "?s = [] \<or> \<not> isDigit (hd ?s)" and ndot: "?s = [] \<or> \<not> isDot (hd ?s)"
    using w(3) isWord_not_isDot by simp_all
  have p: "backtrack (Plus (Atom isDigit)) ?s = []"
    using nd by (rule Plus_fails)
  then have 1: "backtrack (Star (Plus (Atom isDigit))) ?s = [?s]"
    by (rule Star_of_failing)
  have 2: "backtrack (Star (Atom isDot)) ?s = [?s]"
    using ndot by (rule Star_fails)
  have a1: "backtrack (Seq (Star (Plus (Atom isDigit))) (Seq (Star (Atom isDot)) (Plus (Atom isDigit)))) ?s = []"
    by (simp add: 1 2 p)
  obtain t where a2: "backtrack (Plus (Atom isWord)) ?s = rest # t"
    using Plus_greedy [of w isWord rest] w assms(2) by blast
  have "backtrack wordMatcher ?s = [] @ (rest # t)"
    unfolding wordMatcher_def backtrack.simps(3) by (simp only: a1 a2)
  then show ?thesis
    by simp
qed

lemma split_digits:
  assumes "d @ rest = d1 @ x" and "list_all isDigit d1" and "rest = [] \<or> \<not> isDigit (hd rest)"
  shows "\<exists>d2. d = d1 @ d2 \<and> x = d2 @ rest"
proof -
  from assms(1) consider u where "d = d1 @ u" "u @ rest = x" | u where "d @ u = d1" "rest = u @ x"
    by (auto simp: append_eq_append_conv2)
  then show ?thesis
  proof cases
    case 1
    then show ?thesis by auto
  next
    case 2
    have "u = []"
    proof (rule ccontr)
      assume "u \<noteq> []"
      with 2 have "hd rest = hd u" "hd u \<in> set d1" "rest \<noteq> []"
        by (cases u; auto)+
      with assms(2,3) show False
        by (auto simp: list_all_iff)
    qed
    with 2 show ?thesis by auto
  qed
qed

lemma wordMatcher_numeral:
  assumes "isNumeral d" and "rest = [] \<or> (\<not> isDigit (hd rest) \<and> \<not> isDot (hd rest))"
  shows "\<exists>t. backtrack wordMatcher (d @ rest) = rest # t"
proof -
  let ?s = "d @ rest"
  let ?R = "Seq (Star (Atom isDot)) (Plus (Atom isDigit))"
  let ?xs = "backtrack (Star (Plus (Atom isDigit))) ?s"
  from assms(1) have d: "d \<noteq> []" "list_all isDigit d"
    by (simp_all add: isNumeral_def)
  from assms(2) have rd: "rest = [] \<or> \<not> isDigit (hd rest)" and rdot: "rest = [] \<or> \<not> isDot (hd rest)"
    by auto
  have cd: "consumesDigits (Star (Plus (Atom isDigit)))"
    unfolding Plus_def
    by (intro consumesDigits_Star consumesDigits_Seq consumesDigits_Atom)
  have block: "backtrack ?R (d2 @ rest) = (if d2 = [] then [] else backtrack (Plus (Atom isDigit)) (d2 @ rest))"
    if "list_all isDigit d2" for d2
  proof -
    have "d2 @ rest = [] \<or> \<not> isDot (hd (d2 @ rest))"
      using that rdot isWord_not_isDot isDigit_isWord by (cases d2) auto
    then have "backtrack (Star (Atom isDot)) (d2 @ rest) = [d2 @ rest]"
      by (rule Star_fails)
    moreover have "backtrack (Plus (Atom isDigit)) rest = []"
      using rd by (rule Plus_fails)
    ultimately show ?thesis
      by simp
  qed
  have each: "\<forall>x \<in> set ?xs. backtrack ?R x = [] \<or> (\<exists>t. backtrack ?R x = rest # t)"
  proof
    fix x
    assume "x \<in> set ?xs"
    with cd obtain d1 where "?s = d1 @ x" "list_all isDigit d1"
      unfolding consumesDigits_def by blast
    with rd obtain d2 where d2: "d = d1 @ d2" "x = d2 @ rest"
      using split_digits by blast
    with d(2) have dd: "list_all isDigit d2"
      by simp
    show "backtrack ?R x = [] \<or> (\<exists>t. backtrack ?R x = rest # t)"
    proof (cases "d2 = []")
      case True
      with block [OF dd] d2 show ?thesis by simp
    next
      case False
      then obtain t where "backtrack (Plus (Atom isDigit)) (d2 @ rest) = rest # t"
        using Plus_greedy [of d2 isDigit rest] dd rd by blast
      with block [OF dd] d2 False show ?thesis by simp
    qed
  qed
  have "?s \<in> set ?xs"
    by (subst Star_unfold) simp
  moreover obtain t where "backtrack (Plus (Atom isDigit)) ?s = rest # t"
    using Plus_greedy [of d isDigit rest] d rd by blast
  then have "backtrack ?R ?s \<noteq> []"
    using block [OF d(2)] d(1) by simp
  ultimately have "\<exists>x \<in> set ?xs. backtrack ?R x \<noteq> []"
    by blast
  with each obtain t where "concat (map (backtrack ?R) ?xs) = rest # t"
    using concat_first [of ?xs "backtrack ?R" rest] by blast
  then have "backtrack wordMatcher ?s = (rest # t) @ backtrack (Plus (Atom isWord)) ?s"
    unfolding wordMatcher_def backtrack.simps(2,3) by (simp only:)
  then show ?thesis
    by simp
qed

lemma FindAll_first:
  assumes "backtrack r (tok @ rest) = rest # t" and "tok \<noteq> []"
  shows "FindAll r (tok @ rest) = tok # FindAll r rest"
  using assms by (subst FindAll.simps) simp

lemma FindAll_space: "FindAll wordMatcher (CHR '' '' # s) = FindAll wordMatcher s"
proof -
  let ?s = "CHR '' '' # s"
  have p: "backtrack (Plus (Atom isDigit)) ?s = []"
    by (rule Plus_fails) (simp add: space_not_word)
  then have 1: "backtrack (Star (Plus (Atom isDigit))) ?s = [?s]"
    by (rule Star_of_failing)
  have 2: "backtrack (Star (Atom isDot)) ?s = [?s]"
    by (rule Star_fails) (simp add: space_not_word)
  have 3: "backtrack (Plus (Atom isWord)) ?s = []"
    by (rule Plus_fails) (simp add: space_not_word)
  have a1: "backtrack (Seq (Star (Plus (Atom isDigit))) (Seq (Star (Atom isDot)) (Plus (Atom isDigit)))) ?s = []"
    by (simp add: 1 2 p)
  have "backtrack wordMatcher ?s = [] @ []"
    unfolding wordMatcher_def backtrack.simps(3) by (simp only: a1 3)
  then have "backtrack wordMatcher ?s = []"
    by simp
  then show ?thesis
    by (subst FindAll.simps) simp
qed

lemma FindAll_Nil: "FindAll r [] = []"
  by (subst FindAll.simps) simp

lemma wordMatcher_token:
  assumes "isToken w" and "rest = [] \<or> hd rest = CHR '' ''"
  shows "FindAll wordMatcher (w @ rest) = w # FindAll wordMatcher rest"
proof -
  from assms(2) have r: "rest = [] \<or> \<not> isWord (hd rest)"
    "rest = [] \<or> (\<not> isDigit (hd rest) \<and> \<not> isDot (hd rest))"
    using space_not_word by auto
  from assms(1) have "w \<noteq> []"
    by (auto simp: isToken_def isIdent_def isNumeral_def)
  moreover from assms(1) r obtain t where "backtrack wordMatcher (w @ rest) = rest # t"
    using wordMatcher_ident wordMatcher_numeral unfolding isToken_def by blast
  ultimately show ?thesis
    using FindAll_first by blast
qed

lemma FindAll_joinSpace:
  assumes "list_all isToken toks"
  shows "FindAll wordMatcher (joinSpace toks) = toks"
  using assms
proof (induction toks rule: joinSpace.induct)
  case 1
  show ?case by (simp add: FindAll_Nil)
next
  case (2 t)
  then show ?case
    using wordMatcher_token [of t "[]"] by (simp add: FindAll_Nil)
next
  case (3 t u ts)
  then have "FindAll wordMatcher (t @ CHR '' '' # joinSpace (u # ts))
               = t # FindAll wordMatcher (CHR '' '' # joinSpace (u # ts))"
    using wordMatcher_token [of t "CHR '' '' # joinSpace (u # ts)"] by simp
  with 3 show ?case
    by (simp add: FindAll_space)
qed

declare backtrack.simps(4) [simp]

section \<open>Properties\<close>

subsection \<open>The first header line\<close>

text \<open>
  C6, as stated, fails on a file that ends before its first newline: the file \<^verbatim>\<open>plx\<close>
  has a first line that is not \<^verbatim>\<open>ply\<close>, and \<open>Load\<close> returns the error \<open>EOF\<close> of the
  reader, whose text does not name the file.
\<close>

theorem C6_no_newline_counterexample:
  "Load noFloats (onlyFile ''a.ply'' ''plx'') newPLY ''a.ply'' = Inl EOF \<and> Error EOF = ''EOF''"
proof -
  have "newline \<notin> set (contentsOf (NewReader ''plx''))"
    by (simp add: contentsOf_def NewReader_def newline_def)
  then have "readLine (NewReader ''plx'') = Inl EOF"
    by (rule readLine_no_newline)
  then show ?thesis
    by (simp add: Load_def onlyFile_def parseHeader_def)
qed

text \<open>
  C6, amended. Let the file exist. When it holds no newline, \<open>Load\<close> returns the error
  \<open>EOF\<close>. When its first line ends with a newline and, white space trimmed, is not
  \<^verbatim>\<open>ply\<close>, \<open>Load\<close> returns the error \<^verbatim>\<open>"<file> is not a ply file."\<close>, whatever the state
  of the document and the rest of the file: an error value that names the file, not a panic.
\<close>

theorem C6_first_line_not_ply:
  assumes "fs name = Some content"
  shows "(newline \<notin> set content \<longrightarrow> Load pf fs p name = Inl EOF) \<and>
         (\<forall>l rest. content = l @ newline # rest \<and> newline \<notin> set l \<and> strip (l @ [newline]) \<noteq> ''ply''
            \<longrightarrow> Load pf fs p name = Inl (ErrorString (name @ '' is not a ply file.'')))"
proof (intro conjI impI allI)
  assume "newline \<notin> set content"
  then have "readLine (NewReader content) = Inl EOF"
    by (intro readLine_no_newline) (simp add: contentsOf_def NewReader_def)
  with assms show "Load pf fs p name = Inl EOF"
    by (simp add: Load_def parseHeader_def)
next
  fix l rest
  assume a: "content = l @ newline # rest \<and> newline \<notin> set l \<and> strip (l @ [newline]) \<noteq> ''ply''"
  then have "contentsOf (NewReader content) = l @ newline # rest"
    by (simp add: contentsOf_def NewReader_def)
  with a obtain r' where "readLine (NewReader content) = Inr (strip (l @ [newline]), r')"
    using readLine_line by blast
  with assms a show "Load pf fs p name = Inl (ErrorString (name @ '' is not a ply file.''))"
    by (simp add: Load_def parseHeader_def)
qed

theorem C6_first_line_not_ply_witness:
  "onlyFile ''a.ply'' (''plx'' @ [newline]) ''a.ply'' = Some (''plx'' @ [newline]) \<and>
   ''plx'' @ [newline] = ''plx'' @ newline # [] \<and> newline \<notin> set ''plx'' \<and>
   strip (''plx'' @ [newline]) \<noteq> ''ply'' \<and>
   Load noFloats (onlyFile ''a.ply'' (''plx'' @ [newline])) newPLY ''a.ply''
     = Inl (ErrorString ''a.ply is not a ply file.'') \<and>
   onlyFile ''a.ply'' ''plx'' ''a.ply'' = Some ''plx'' \<and> newline \<notin> set ''plx'' \<and>
   Load noFloats (onlyFile ''a.ply'' ''plx'') newPLY ''a.ply'' = Inl EOF"
proof -
  have 1: "onlyFile ''a.ply'' (''plx'' @ [newline]) ''a.ply'' = Some (''plx'' @ [newline])"
    by (simp add: onlyFile_def)
  have 2: "newline \<notin> set ''plx''"
    by (simp add: newline_def)
  have s: "strip (''plx'' @ [newline]) = ''plx''"
    by (rule strip_graphic) (simp_all add: isGraphic_def)
  have 3: "strip (''plx'' @ [newline]) \<noteq> ''ply''"
    unfolding s by simp
  have 4: "onlyFile ''a.ply'' ''plx'' ''a.ply'' = Some ''plx''"
    by (simp add: onlyFile_def)
  have "Load noFloats (onlyFile ''a.ply'' (''plx'' @ [newline])) newPLY ''a.ply''
          = Inl (ErrorString (''a.ply'' @ '' is not a ply file.''))"
    using C6_first_line_not_ply [where fs = "onlyFile ''a.ply'' (''plx'' @ [newline])"
        and name = "''a.ply''" and content = "''plx'' @ [newline]" and pf = noFloats
        and p = newPLY, OF 1] 2 3
    by blast
  moreover have "Load noFloats (onlyFile ''a.ply'' ''plx'') newPLY ''a.ply'' = Inl EOF"
    using C6_first_line_not_ply [where fs = "onlyFile ''a.ply'' ''plx''" and name = "''a.ply''"
        and content = "''plx''" and pf = noFloats and p = newPLY, OF 4] 2
    by blast
  ultimately show ?thesis
    using 1 2 3 4 by simp
qed

subsection \<open>A property line before any element line\<close>

definition headerPropertyFirst :: string where
  "headerPropertyFirst =
     textLine ''ply'' (textLine ''format ascii 1.0'' (textLine ''property float32 x''
       (textLine ''end_header'' [])))"

text \<open>
  C10. On a header whose first declaration is a \<^verbatim>\<open>property\<close> line, \<open>parseHeader\<close> panics
  with an index out of range, the index being the \<open>-1\<close> of \<open>currentElem\<close> and the element
  list being empty; it returns no error value.
\<close>

theorem C10_property_before_element_panics:
  "parseHeader (newPLY\<lparr>reader := NewReader headerPropertyFirst\<rparr>)
     = Inl (Panic (IndexOutOfRange (- 1) 0))"
proof -
  have "length headerPropertyFirst \<le> bufSize"
    by (simp add: headerPropertyFirst_def textLine_def bufSize_def)
  then show ?thesis
    unfolding headerPropertyFirst_def
    apply (simp add: parseHeader_def newPLY_def line_eval tokens_format_ascii Ascii_def)
    apply (subst headerLoop.simps, simp add: line_eval tokens_property_x propertyLine_def newProperty_def)
    done
qed

subsection \<open>The text codec returns zero bytes\<close>

text \<open>
  C2. The claim fails on the code: \<open>toType\<close> parses the token \<^verbatim>\<open>1\<close> as an \<^verbatim>\<open>int8\<close> and
  returns the one byte \<open>0x00\<close>, while the little-endian representation of 1 is the byte
  \<open>0x01\<close>. The value is written after the contents of the buffer made from \<open>b\<close>, never
  into \<open>b\<close>.
\<close>

theorem C2_toType_one_is_zero_byte:
  "toType pf ''1'' ''int8'' = Inr (Some [CHR 0x00]) \<and> littleEndianBytes 1 1 = [CHR 0x01]"
  by (simp add: toType_def Types_def OldTypes_def ParseInt_def ParseUint_def isDigit_def
      isLetter_def digitVal_def lower_def maxUint64_def writeValue_zero littleEndianBytes_def
      byte_def)

subsection \<open>ASCII rows without numeric tokens\<close>

text \<open>
  C9, as stated, fails on a last row that has no final newline: the line \<^verbatim>\<open>abc\<close> holds no
  numeric token, and the decoding of the row reports the error \<open>EOF\<close>.
\<close>

theorem C9_last_line_without_newline_counterexample:
  "FindAll numMatcher ''abc'' = [] \<and>
   asciiRows noFloats \<lparr>buffered = ''abc'', source = []\<rparr> [newProperty\<lparr>Data := [None]\<rparr>] 0 1 = Inl EOF"
proof -
  have "newline \<notin> set (contentsOf \<lparr>buffered = ''abc'', source = []\<rparr>)"
    by (simp add: contentsOf_def newline_def)
  then have "readLine \<lparr>buffered = ''abc'', source = []\<rparr> = Inl EOF"
    by (rule readLine_no_newline)
  moreover have "FindAll numMatcher ''abc'' = []"
    by (simp add: FindAll.simps numMatcher_def Plus_def isDot_def isSign_def isDigit_def)
  ultimately show ?thesis
    by (subst asciiRows.simps) simp
qed

text \<open>
  C9, amended. Let row \<open>i\<close> be still to decode. When the input holds no newline, the
  decoding fails with \<open>EOF\<close>. When the next line ends with a newline and holds no numeric
  token, the row stores nothing and reports no error: the properties are as they were, and
  the decoding goes on with row \<open>i + 1\<close> on the input after that line.
\<close>

theorem C9_line_without_tokens_is_skipped:
  assumes "i < n"
  shows "(newline \<notin> set (contentsOf r) \<longrightarrow> asciiRows pf r props i n = Inl EOF) \<and>
         (\<forall>l rest. contentsOf r = l @ newline # rest \<and> newline \<notin> set l \<and>
                    FindAll numMatcher (strip (l @ [newline])) = []
            \<longrightarrow> asciiRow pf (strip (l @ [newline])) props i = Inr props \<and>
                (\<exists>r'. contentsOf r' = rest \<and>
                       asciiRows pf r props i n = asciiRows pf r' props (i + 1) n))"
proof (intro conjI impI allI)
  assume "newline \<notin> set (contentsOf r)"
  then have "readLine r = Inl EOF"
    by (rule readLine_no_newline)
  with assms show "asciiRows pf r props i n = Inl EOF"
    by (subst asciiRows.simps) simp
next
  fix l rest
  assume a: "contentsOf r = l @ newline # rest \<and> newline \<notin> set l \<and>
             FindAll numMatcher (strip (l @ [newline])) = []"
  then show "asciiRow pf (strip (l @ [newline])) props i = Inr props"
    by (simp add: asciiRow_def)
next
  fix l rest
  assume a: "contentsOf r = l @ newline # rest \<and> newline \<notin> set l \<and>
             FindAll numMatcher (strip (l @ [newline])) = []"
  then obtain r' where r': "readLine r = Inr (strip (l @ [newline]), r')" "contentsOf r' = rest"
    using readLine_line by blast
  with a assms have "asciiRows pf r props i n = asciiRows pf r' props (i + 1) n"
    by (subst asciiRows.simps) (simp add: asciiRow_def)
  with r' show "\<exists>r'. contentsOf r' = rest \<and>
                     asciiRows pf r props i n = asciiRows pf r' props (i + 1) n"
    by blast
qed

definition commentReader :: Reader where
  "commentReader = \<lparr>buffered = ''abc'' @ newline # ''1 2'', source = []\<rparr>"

theorem C9_line_without_tokens_is_skipped_witness:
  "(0::int) < 1 \<and> contentsOf commentReader = ''abc'' @ newline # ''1 2'' \<and> newline \<notin> set ''abc'' \<and>
   FindAll numMatcher (strip (''abc'' @ [newline])) = [] \<and>
   asciiRow noFloats (strip (''abc'' @ [newline])) [newProperty\<lparr>Data := [None]\<rparr>] 0
     = Inr [newProperty\<lparr>Data := [None]\<rparr>] \<and>
   (\<exists>r'. contentsOf r' = ''1 2'' \<and>
          asciiRows noFloats commentReader [newProperty\<lparr>Data := [None]\<rparr>] 0 1
            = asciiRows noFloats r' [newProperty\<lparr>Data := [None]\<rparr>] (0 + 1) 1) \<and>
   newline \<notin> set (contentsOf \<lparr>buffered = ''abc'', source = []\<rparr>) \<and>
   asciiRows noFloats \<lparr>buffered = ''abc'', source = []\<rparr> [newProperty\<lparr>Data := [None]\<rparr>] 0 1 = Inl EOF"
proof -
  have 1: "(0::int) < 1"
    by simp
  have 2: "contentsOf commentReader = ''abc'' @ newline # ''1 2''"
    by (simp add: commentReader_def contentsOf_def)
  have 3: "newline \<notin> set ''abc''"
    by (simp add: newline_def)
  have s: "strip (''abc'' @ [newline]) = ''abc''"
    by (rule strip_graphic) (simp_all add: isGraphic_def)
  have 4: "FindAll numMatcher (strip (''abc'' @ [newline])) = []"
    unfolding s
    by (simp add: FindAll.simps numMatcher_def Plus_def isDot_def isSign_def isDigit_def)
  have 5: "newline \<notin> set (contentsOf \<lparr>buffered = ''abc'', source = []\<rparr>)"
    by (simp add: contentsOf_def newline_def)
  have "asciiRow noFloats (strip (''abc'' @ [newline])) [newProperty\<lparr>Data := [None]\<rparr>] 0
          = Inr [newProperty\<lparr>Data := [None]\<rparr>] \<and>
        (\<exists>r'. contentsOf r' = ''1 2'' \<and>
               asciiRows noFloats commentReader [newProperty\<lparr>Data := [None]\<rparr>] 0 1
                 = asciiRows noFloats r' [newProperty\<lparr>Data := [None]\<rparr>] (0 + 1) 1)"
    using C9_line_without_tokens_is_skipped [OF 1, of commentReader noFloats "[newProperty\<lparr>Data := [None]\<rparr>]"]
      2 3 4 by blast
  moreover have "asciiRows noFloats \<lparr>buffered = ''abc'', source = []\<rparr> [newProperty\<lparr>Data := [None]\<rparr>] 0 1 = Inl EOF"
    using C9_line_without_tokens_is_skipped [OF 1, of "\<lparr>buffered = ''abc'', source = []\<rparr>" noFloats "[newProperty\<lparr>Data := [None]\<rparr>]"]
      5 by blast
  ultimately show ?thesis
    using 1 2 3 4 5 by blast
qed

subsection \<open>The count of a binary list\<close>

text \<open>
  C7. For a list property of a recognized type, whatever count type \<open>t\<close> the header
  declared and in either byte order, the binary decoder reads the count as the four bytes
  at the head of the input, taken as an unsigned 32-bit integer in the byte order of the
  file: with fewer than four bytes left it fails with an end-of-file error, and otherwise
  the count it uses for the row is \<open>Uint32 bo\<close> of those four bytes.
\<close>

theorem C7_list_count_is_uint32:
  assumes "IsList prop" and "recognized (Type prop)" and "0 \<le> i" and "i < int (length (Data prop))"
  shows "(length (contentsOf r) < 4 \<longrightarrow>
            binaryProp (Some bo) r (prop\<lparr>ListSizeType := t\<rparr>) i
              = Inl (if contentsOf r = [] then EOF else ErrUnexpectedEOF)) \<and>
         (4 \<le> length (contentsOf r) \<longrightarrow>
            (\<exists>r1 prop' r'.
               ReadFull r 4 = Inr (take 4 (contentsOf r), r1) \<and>
               contentsOf r1 = drop 4 (contentsOf r) \<and>
               binaryProp (Some bo) r (prop\<lparr>ListSizeType := t\<rparr>) i = Inr (prop', r') \<and>
               Data prop' ! nat i =
                 Some (replicate (unat (Uint32 bo (take 4 (contentsOf r))) * width (Type prop)) (CHR 0x00) @
                       fst (readItems r1 (width (Type prop)) (unat (Uint32 bo (take 4 (contentsOf r)))))) \<and>
               r' = snd (readItems r1 (width (Type prop)) (unat (Uint32 bo (take 4 (contentsOf r)))))))"
proof (intro conjI impI)
  assume "length (contentsOf r) < 4"
  then show "binaryProp (Some bo) r (prop\<lparr>ListSizeType := t\<rparr>) i
               = Inl (if contentsOf r = [] then EOF else ErrUnexpectedEOF)"
    using assms(1) by (simp add: binaryProp_def ReadFull_short)
next
  assume "4 \<le> length (contentsOf r)"
  then obtain r1 where r1: "ReadFull r 4 = Inr (take 4 (contentsOf r), r1)"
    "contentsOf r1 = drop 4 (contentsOf r)"
    using ReadFull_enough [of 4 r] by auto
  have "binaryProp (Some bo) r (prop\<lparr>ListSizeType := t\<rparr>) i =
          Inr (prop\<lparr>ListSizeType := t,
                    Data := (Data prop)[nat i :=
                      Some (replicate (unat (Uint32 bo (take 4 (contentsOf r))) * width (Type prop)) (CHR 0x00) @
                            fst (readItems r1 (width (Type prop)) (unat (Uint32 bo (take 4 (contentsOf r))))))]\<rparr>,
               snd (readItems r1 (width (Type prop)) (unat (Uint32 bo (take 4 (contentsOf r))))))"
    using binaryProp_list [of "prop\<lparr>ListSizeType := t\<rparr>" i r "take 4 (contentsOf r)" r1 bo] assms r1(1)
    by simp
  with r1 assms(3,4) show "\<exists>r1 prop' r'.
               ReadFull r 4 = Inr (take 4 (contentsOf r), r1) \<and>
               contentsOf r1 = drop 4 (contentsOf r) \<and>
               binaryProp (Some bo) r (prop\<lparr>ListSizeType := t\<rparr>) i = Inr (prop', r') \<and>
               Data prop' ! nat i =
                 Some (replicate (unat (Uint32 bo (take 4 (contentsOf r))) * width (Type prop)) (CHR 0x00) @
                       fst (readItems r1 (width (Type prop)) (unat (Uint32 bo (take 4 (contentsOf r)))))) \<and>
               r' = snd (readItems r1 (width (Type prop)) (unat (Uint32 bo (take 4 (contentsOf r)))))"
    by simp
qed

definition countedReader :: Reader where
  "countedReader = \<lparr>buffered = [CHR 0x01, CHR 0x00, CHR 0x00, CHR 0x00, CHR 0x07], source = []\<rparr>"

definition idsProperty :: Property where
  "idsProperty = \<lparr>Name = ''ids'', IsList = True, Data = [None], Type = ''uint8'', ListSizeType = [], pos = 0\<rparr>"

theorem C7_list_count_is_uint32_witness:
  "IsList idsProperty \<and> recognized (Type idsProperty) \<and> (0::int) \<le> 0 \<and>
   0 < int (length (Data idsProperty)) \<and> 4 \<le> length (contentsOf countedReader) \<and>
   (\<exists>r1 prop' r'.
      ReadFull countedReader 4 = Inr (take 4 (contentsOf countedReader), r1) \<and>
      contentsOf r1 = drop 4 (contentsOf countedReader) \<and>
      binaryProp (Some BigEndian) countedReader (idsProperty\<lparr>ListSizeType := ''uint8''\<rparr>) 0 = Inr (prop', r') \<and>
      Data prop' ! nat 0 =
        Some (replicate (unat (Uint32 BigEndian (take 4 (contentsOf countedReader))) * width (Type idsProperty)) (CHR 0x00) @
              fst (readItems r1 (width (Type idsProperty)) (unat (Uint32 BigEndian (take 4 (contentsOf countedReader)))))) \<and>
      r' = snd (readItems r1 (width (Type idsProperty)) (unat (Uint32 BigEndian (take 4 (contentsOf countedReader))))))"
proof -
  have h: "IsList idsProperty" "recognized (Type idsProperty)" "(0::int) \<le> 0"
    "0 < int (length (Data idsProperty))"
    by (simp_all add: idsProperty_def recognized_def Types_def OldTypes_def)
  have l: "4 \<le> length (contentsOf countedReader)"
    by (simp add: countedReader_def contentsOf_def)
  show ?thesis
    using C7_list_count_is_uint32 [OF h, of countedReader BigEndian "''uint8''"] h l
    by simp
qed

subsection \<open>Three loads that differ from the specification\<close>

text \<open>
  C1. The claim fails on the code. Whatever \<^verbatim>\<open>ParseFloat\<close> returns, loading the minimal
  ASCII document either fails or yields the document \<open>zeroVertex\<close>, whose three row buffers
  are four zero bytes each (and all three properties were decoded from the first token
  \<^verbatim>\<open>1.0\<close>); \<open>ReadVertices\<close> then returns the columns \<open>([0.0], [0.0], [0.0])\<close>, given here
  by their bit patterns, where 1.0, 2.0 and 3.0 have the patterns \<open>0x3F800000\<close>,
  \<open>0x40000000\<close> and \<open>0x40400000\<close>.
\<close>

theorem C1_minimal_ascii_document_decodes_to_zero:
  "(\<exists>e. Load pf [''a.ply'' \<mapsto> asciiDocument] newPLY ''a.ply'' = Inl e) \<or>
   (Load pf [''a.ply'' \<mapsto> asciiDocument] newPLY ''a.ply'' = Inr zeroVertex \<and>
    ReadVertices zeroVertex = Inr (Some [[0], [0], [0]]))"
  by (cases "pf ''1.0'' 32")
     (simp_all add: Load_def asciiDocument_header asciiSchema_FileType BinaryBigEndian_def
        BinaryLittleEndian_def Ascii_def asciiDocument_body zeroVertex_columns)

text \<open>
  C3. The claim fails on the code. For \<^verbatim>\<open>property list uint8 int32 ids\<close> and a binary
  little-endian body that holds the count 3 (in the four bytes the decoder reads) and three
  4-byte values, the row buffer has 24 bytes: twelve zero bytes, then the twelve bytes of
  the values.
\<close>

theorem C3_list_row_has_24_bytes:
  "map_sum id rowBuffers (Load pf [''a.ply'' \<mapsto> listDocument] newPLY ''a.ply'')
     = Inr [[[Some (replicate 12 (CHR 0x00) @ drop 4 listBody)]]] \<and>
   length (replicate 12 (CHR 0x00) @ drop 4 listBody) = 24"
  by (simp add: Load_def listDocument_header listSchema_FileType BinaryBigEndian_def
      BinaryLittleEndian_def listDocument_body) (simp add: listBody_def)

text \<open>
  C4. The claim fails on the code. A binary file whose schema asks for one \<^verbatim>\<open>float32\<close>
  and whose body is empty loads without an error; the row buffer holds four zero bytes.
\<close>

theorem C4_truncated_body_loads:
  "map_sum id rowBuffers (Load pf [''a.ply'' \<mapsto> truncatedDocument] newPLY ''a.ply'')
     = Inr [[[Some (replicate 4 (CHR 0x00))]]]"
  by (simp add: Load_def truncatedDocument_header truncatedSchema_FileType BinaryBigEndian_def
      BinaryLittleEndian_def truncatedDocument_body)

subsection \<open>List rows are multiples of the width\<close>

text \<open>
  C5. After a load that succeeds (through \<open>Load\<close>, or through the binary or the ASCII
  decoder called on a document), every row buffer that a list property of a recognized
  scalar type holds has a length that is a multiple of the width of that type.
\<close>

theorem C5_list_rows_are_multiples_of_width:
  assumes "Load pf fs p name = Inr p' \<or> parseBinary p = Inr p' \<or> parseASCII pf p = Inr p'"
    and "elem \<in> set (Elements p')" and "q \<in> set (Properties elem)"
    and "IsList q" and "recognized (Type q)" and "Some b \<in> set (Data q)"
  shows "width (Type q) dvd length b"
proof -
  from assms(1) have "list_all elemAligned (Elements p')"
    using Load_aligned parseBinary_aligned parseASCII_aligned by blast
  with assms(2) have "elemAligned elem"
    by (simp add: list_all_iff)
  with assms(3) have "rowsAligned q"
    by (simp add: elemAligned_def list_all_iff)
  with assms(4,5) have "list_all (bufferAligned (width (Type q))) (Data q)"
    by (simp add: rowsAligned_def)
  with assms(6) have "bufferAligned (width (Type q)) (Some b)"
    by (simp add: list_all_iff)
  then show ?thesis
    by (simp add: bufferAligned_def)
qed

theorem C5_list_rows_are_multiples_of_width_witness:
  "(Load noFloats (onlyFile ''a.ply'' listDocument) newPLY ''a.ply'' = Inr listLoaded \<or>
    parseBinary newPLY = Inr listLoaded \<or> parseASCII noFloats newPLY = Inr listLoaded) \<and>
   listFace \<in> set (Elements listLoaded) \<and> listIds \<in> set (Properties listFace) \<and>
   IsList listIds \<and> recognized (Type listIds) \<and> Some listRow \<in> set (Data listIds) \<and>
   length listRow = 24 \<and> width (Type listIds) = 4 \<and>
   width (Type listIds) dvd length listRow"
proof -
  have 1: "Load noFloats (onlyFile ''a.ply'' listDocument) newPLY ''a.ply'' = Inr listLoaded \<or>
           parseBinary newPLY = Inr listLoaded \<or> parseASCII noFloats newPLY = Inr listLoaded"
    by (simp add: listDocument_loaded)
  have 2: "listFace \<in> set (Elements listLoaded)"
    by (simp add: listLoaded_def)
  have 3: "listIds \<in> set (Properties listFace)"
    by (simp add: listFace_def)
  have 4: "IsList listIds"
    by (simp add: listIds_def)
  have 5: "recognized (Type listIds)"
    by (simp add: listIds_def recognized_def Types_def)
  have 6: "Some listRow \<in> set (Data listIds)"
    by (simp add: listIds_def)
  have 7: "length listRow = 24"
    by (simp add: listRow_def listBody_def)
  have 8: "width (Type listIds) = 4"
    by (simp add: listIds_def width_def SizeOfType_def SizeOfTypeTable_def)
  show ?thesis
    using C5_list_rows_are_multiples_of_width [OF 1 2 3 4 5 6] 1 2 3 4 5 6 7 8
    by blast
qed

end
